theory Spec2Isabelle
  imports Main
begin

section \<open>Elixir: a Critical Path Method scheduler (elixir.cpp)\<close>

text \<open>
  The program reads task rows (name, duration, dependency names), runs a forward pass
  (ES, EF), derives the successor lists, runs a backward pass (LF, LS), computes the
  slack and writes two tables. The theory embeds the passes as they are written in
  \<^verbatim>\<open>elixir.cpp\<close>: the task vector is a list that the passes update by
  index, the exception of a failed lookup is an error value, and the two recursive
  functions carry a bound on the recursion depth, since on a cyclic input the C++
  recursion never comes back.

  C++ \<^verbatim>\<open>int\<close> is modelled by \<^typ>\<open>int\<close>. Signed overflow is undefined
  behaviour in C++, so the model describes the runs in which no sum leaves the range of
  \<^verbatim>\<open>int\<close>; the one place where the width shows is the constant
  \<^verbatim>\<open>INT_MAX\<close> that seeds the minimum of the backward pass. Every theorem of
  a claim that states a property of the timing values (ES, EF, LS, LF, slack, the project
  length) for all inputs assumes \<open>durations_fit\<close>, under which every value the
  passes compute lies between 0 and
  \<^verbatim>\<open>INT_MAX\<close> (lemma \<open>main_in_int_range\<close>); the theorems without it speak of
  termination, errors, names, lookups, successor vectors and call logs, which do not
  depend on the values of the sums.
\<close>

subsection \<open>Data\<close>

text \<open>\<^verbatim>\<open>struct Task\<close> (lines 22-46).\<close>

record Task =
  name :: string
  duration :: int
  dependencies :: "string list"
  successors :: "string list"
  ES :: int
  EF :: int
  LS :: int
  LF :: int
  slack :: int

text \<open>
  A parsed line of the input file: the three cells that \<^verbatim>\<open>loadCSV\<close> hands to
  the constructor (the name, \<^verbatim>\<open>stoi\<close> of the duration, the dependency cell
  split at semicolons).
\<close>

type_synonym row = "string \<times> int \<times> string list"

text \<open>
  The constructor (lines 42-44) sets the name, the duration and the dependencies. The
  successor vector is default-constructed, hence empty. The five timing fields are left
  uninitialised: the template \<open>g\<close> stands for whatever the memory holds, and every
  theorem below holds for every \<open>g\<close>.
\<close>

definition newTask :: "Task \<Rightarrow> row \<Rightarrow> Task" where
  "newTask g r = (case r of (taskName, taskDuration, deps) \<Rightarrow>
     g\<lparr>name := taskName, duration := taskDuration, dependencies := deps, successors := []\<rparr>)"

text \<open>\<^verbatim>\<open>loadCSV\<close> after parsing: one task per row, in file order (lines 96-98).\<close>

definition loadCSV :: "Task \<Rightarrow> row list \<Rightarrow> Task list" where
  "loadCSV g rows = map (newTask g) rows"

subsection \<open>Errors and results\<close>

text \<open>
  The only exception of the passes is
  \<^verbatim>\<open>runtime_error("Task not found: " + name)\<close>. A result is \<open>None\<close> when the
  recursion depth bound is exhausted, \<open>Some (Inl e)\<close> when the exception \<open>e\<close> is
  thrown, and \<open>Some (Inr v)\<close> when the call returns \<open>v\<close>.
\<close>

datatype error = TaskNotFound string

type_synonym 'a result = "(error + 'a) option"

definition bindR :: "'a result \<Rightarrow> ('a \<Rightarrow> 'b result) \<Rightarrow> 'b result" where
  "bindR m f = (case m of None \<Rightarrow> None | Some (Inl e) \<Rightarrow> Some (Inl e) | Some (Inr v) \<Rightarrow> f v)"

definition INT_MAX :: int where
  "INT_MAX = 2147483647"

subsection \<open>Lookup by name\<close>

text \<open>\<^verbatim>\<open>getTaskFromList\<close> (lines 118-123): the first task with the name.\<close>

fun getTaskFromList :: "string \<Rightarrow> Task list \<Rightarrow> error + Task" where
  "getTaskFromList n [] = Inl (TaskNotFound n)"
| "getTaskFromList n (t # ts) = (if name t = n then Inr t else getTaskFromList n ts)"

text \<open>
  \<^verbatim>\<open>getTaskObjectFromList\<close> (lines 126-131) returns a mutable reference into the
  vector: the model returns the index of the first task with the name.
\<close>

fun getTaskObjectFromList :: "string \<Rightarrow> Task list \<Rightarrow> error + nat" where
  "getTaskObjectFromList n [] = Inl (TaskNotFound n)"
| "getTaskObjectFromList n (t # ts) =
     (if name t = n then Inr 0
      else (case getTaskObjectFromList n ts of Inl e \<Rightarrow> Inl e | Inr i \<Rightarrow> Inr (Suc i)))"

subsection \<open>Forward pass\<close>

text \<open>
  The loop of \<^verbatim>\<open>getEarlyStartScore\<close> (lines 150-156) over the dependency names;
  \<open>rec\<close> is the recursive call and \<open>es\<close> the running maximum \<^verbatim>\<open>ES\<close>.
\<close>

fun earlyStartLoop ::
  "(Task \<Rightarrow> int result) \<Rightarrow> string list \<Rightarrow> Task list \<Rightarrow> int \<Rightarrow> int result" where
  "earlyStartLoop rec [] taskList es = Some (Inr es)"
| "earlyStartLoop rec (depName # rest) taskList es =
     (case getTaskFromList depName taskList of
        Inl e \<Rightarrow> Some (Inl e)
      | Inr depTask \<Rightarrow>
          bindR (rec depTask) (\<lambda>score.
            let depEF = score + duration depTask
            in earlyStartLoop rec rest taskList (if depEF > es then depEF else es)))"

text \<open>
  \<^verbatim>\<open>getEarlyStartScore\<close> (lines 144-159). The first argument bounds the depth of
  the recursion: a call at depth 0 does not return.
\<close>

fun getEarlyStartScore :: "nat \<Rightarrow> Task \<Rightarrow> Task list \<Rightarrow> int result" where
  "getEarlyStartScore 0 task taskList = None"
| "getEarlyStartScore (Suc k) task taskList =
     (if dependencies task = [] then Some (Inr 0)
      else earlyStartLoop (\<lambda>depTask. getEarlyStartScore k depTask taskList)
             (dependencies task) taskList 0)"

text \<open>
  \<^verbatim>\<open>updateAllEarlyVars\<close> (lines 162-169): the range-for visits the vector by
  index and writes ES and EF of the visited element in place.
\<close>

fun updateEarlyAt :: "nat \<Rightarrow> nat list \<Rightarrow> Task list \<Rightarrow> Task list result" where
  "updateEarlyAt k [] taskList = Some (Inr taskList)"
| "updateEarlyAt k (i # is) taskList =
     bindR (getEarlyStartScore k (taskList ! i) taskList) (\<lambda>score.
       updateEarlyAt k is
         (taskList[i := (taskList ! i)\<lparr>ES := score, EF := score + duration (taskList ! i)\<rparr>]))"

definition updateAllEarlyVars :: "nat \<Rightarrow> Task list \<Rightarrow> Task list result" where
  "updateAllEarlyVars k taskList = updateEarlyAt k [0..<length taskList] taskList"

subsection \<open>Successors\<close>

text \<open>
  \<^verbatim>\<open>populateSuccessors\<close> (lines 185-195). The inner loop appends the name of the
  visited task to the successor vector of the first task named as each dependency.
\<close>

fun pushSuccessors :: "string \<Rightarrow> string list \<Rightarrow> Task list \<Rightarrow> error + Task list" where
  "pushSuccessors tName [] taskList = Inr taskList"
| "pushSuccessors tName (depName # rest) taskList =
     (case getTaskObjectFromList depName taskList of
        Inl e \<Rightarrow> Inl e
      | Inr j \<Rightarrow>
          pushSuccessors tName rest
            (taskList[j := (taskList ! j)\<lparr>successors := successors (taskList ! j) @ [tName]\<rparr>]))"

fun populateAt :: "nat list \<Rightarrow> Task list \<Rightarrow> error + Task list" where
  "populateAt [] taskList = Inr taskList"
| "populateAt (i # is) taskList =
     (case pushSuccessors (name (taskList ! i)) (dependencies (taskList ! i)) taskList of
        Inl e \<Rightarrow> Inl e
      | Inr taskList' \<Rightarrow> populateAt is taskList')"

definition populateSuccessors :: "Task list \<Rightarrow> error + Task list" where
  "populateSuccessors taskList = populateAt [0..<length taskList] taskList"

subsection \<open>Backward pass\<close>

text \<open>
  The loop of \<^verbatim>\<open>getLateFinishScore\<close> (lines 206-214) over the successor names;
  \<open>lf\<close> is the running minimum \<^verbatim>\<open>LF\<close>.
\<close>

fun lateFinishLoop ::
  "(Task \<Rightarrow> int result) \<Rightarrow> string list \<Rightarrow> Task list \<Rightarrow> int \<Rightarrow> int result" where
  "lateFinishLoop rec [] taskList lf = Some (Inr lf)"
| "lateFinishLoop rec (sName # rest) taskList lf =
     (case getTaskFromList sName taskList of
        Inl e \<Rightarrow> Some (Inl e)
      | Inr sTask \<Rightarrow>
          bindR (rec sTask) (\<lambda>score.
            let sLS = score - duration sTask
            in lateFinishLoop rec rest taskList (if sLS < lf then sLS else lf)))"

text \<open>
  \<^verbatim>\<open>getLateFinishScore\<close> (lines 198-216): a task without successors gets its own
  EF; otherwise the minimum starts at \<^verbatim>\<open>INT_MAX\<close>.
\<close>

fun getLateFinishScore :: "nat \<Rightarrow> Task \<Rightarrow> Task list \<Rightarrow> int result" where
  "getLateFinishScore 0 task taskList = None"
| "getLateFinishScore (Suc k) task taskList =
     (if successors task = [] then Some (Inr (EF task))
      else lateFinishLoop (\<lambda>sTask. getLateFinishScore k sTask taskList)
             (successors task) taskList INT_MAX)"

text \<open>\<^verbatim>\<open>updateAllLateVars\<close> (lines 219-226).\<close>

fun updateLateAt :: "nat \<Rightarrow> nat list \<Rightarrow> Task list \<Rightarrow> Task list result" where
  "updateLateAt k [] taskList = Some (Inr taskList)"
| "updateLateAt k (i # is) taskList =
     bindR (getLateFinishScore k (taskList ! i) taskList) (\<lambda>score.
       updateLateAt k is
         (taskList[i := (taskList ! i)\<lparr>LF := score, LS := score - duration (taskList ! i)\<rparr>]))"

definition updateAllLateVars :: "nat \<Rightarrow> Task list \<Rightarrow> Task list result" where
  "updateAllLateVars k taskList = updateLateAt k [0..<length taskList] taskList"

subsection \<open>Slack, project length, main\<close>

text \<open>\<^verbatim>\<open>updateAllSlack\<close> (lines 229-235).\<close>

definition updateAllSlack :: "Task list \<Rightarrow> Task list" where
  "updateAllSlack taskList = map (\<lambda>task. task\<lparr>slack := LS task - ES task\<rparr>) taskList"

text \<open>The project length as \<^verbatim>\<open>outputTimelineCSV\<close> determines it (lines 272-275).\<close>

fun projectLengthFrom :: "int \<Rightarrow> Task list \<Rightarrow> int" where
  "projectLengthFrom projectLength [] = projectLength"
| "projectLengthFrom projectLength (t # ts) =
     projectLengthFrom (if EF t > projectLength then EF t else projectLength) ts"

definition projectLength :: "Task list \<Rightarrow> int" where
  "projectLength taskList = projectLengthFrom 0 taskList"

text \<open>
  \<^verbatim>\<open>main\<close> (lines 307-321) up to the two output calls: the result is the task
  vector that \<^verbatim>\<open>outputTaskCSV\<close> and \<^verbatim>\<open>outputTimelineCSV\<close> print. An
  exception or an unbounded recursion ends the program before anything is written.
\<close>

definition main :: "nat \<Rightarrow> Task \<Rightarrow> row list \<Rightarrow> Task list result" where
  "main k g rows =
     bindR (updateAllEarlyVars k (loadCSV g rows)) (\<lambda>tasks1.
       case populateSuccessors tasks1 of
         Inl e \<Rightarrow> Some (Inl e)
       | Inr tasks2 \<Rightarrow>
           bindR (updateAllLateVars k tasks2) (\<lambda>tasks3. Some (Inr (updateAllSlack tasks3))))"

subsection \<open>Inputs: the dependency relation\<close>

text \<open>
  An edge \<open>(d, n)\<close> says that the task named \<open>n\<close> lists \<open>d\<close> as a dependency:
  \<open>d\<close> is a predecessor of \<open>n\<close>.
\<close>

definition depEdges :: "row list \<Rightarrow> (string \<times> string) set" where
  "depEdges rows = set (concat (map (\<lambda>(n, dur, deps). map (\<lambda>d. (d, n)) deps) rows))"

definition resolved :: "row list \<Rightarrow> bool" where
  "resolved rows = (\<forall>r\<in>set rows. set (snd (snd r)) \<subseteq> fst ` set rows)"

text \<open>
  A valid DAG input: the names are unique, every dependency name is the name of a row, and
  the dependency relation has no cycle.
\<close>

definition valid_dag :: "row list \<Rightarrow> bool" where
  "valid_dag rows = (distinct (map fst rows) \<and> resolved rows \<and> acyclic (depEdges rows))"

text \<open>
  The durations of the spec's data model are non-negative; their sum fits in a C++
  \<^verbatim>\<open>int\<close>, so that no sum of the passes overflows.
\<close>

definition durations_fit :: "row list \<Rightarrow> bool" where
  "durations_fit rows =
     ((\<forall>r\<in>set rows. 0 \<le> fst (snd r)) \<and> sum_list (map (\<lambda>r. fst (snd r)) rows) \<le> INT_MAX)"

text \<open>The same notions on the task vector.\<close>

definition depRel :: "Task list \<Rightarrow> (string \<times> string) set" where
  "depRel ts = {(d, n). \<exists>t\<in>set ts. name t = n \<and> d \<in> set (dependencies t)}"

definition resolvedT :: "Task list \<Rightarrow> bool" where
  "resolvedT ts = (\<forall>t\<in>set ts. set (dependencies t) \<subseteq> name ` set ts)"

text \<open>
  The fields a pass reads: the forward pass reads \<open>static\<close> and writes ES and EF, the
  backward pass reads \<open>lstatic\<close> and writes LF and LS.
\<close>

definition static :: "Task \<Rightarrow> string \<times> int \<times> string list" where
  "static t = (name t, duration t, dependencies t)"

definition lstatic :: "Task \<Rightarrow> string \<times> int \<times> string list \<times> int" where
  "lstatic t = (name t, duration t, successors t, EF t)"

text \<open>
  \<open>unsucc\<close> blanks the successor vector: \<^verbatim>\<open>populateSuccessors\<close> changes
  nothing else. \<open>succ_sound\<close> says that every successor entry comes from a dependency
  edge.
\<close>

definition unsucc :: "Task \<Rightarrow> Task" where
  "unsucc t = t\<lparr>successors := []\<rparr>"

definition succ_sound :: "Task list \<Rightarrow> bool" where
  "succ_sound ts = (\<forall>t\<in>set ts. \<forall>s\<in>set (successors t). (name t, s) \<in> depRel ts)"

text \<open>Zero-filled memory, for the concrete runs below.\<close>

definition zeroTask :: Task where
  "zeroTask = \<lparr>name = [], duration = 0, dependencies = [], successors = [],
     ES = 0, EF = 0, LS = 0, LF = 0, slack = 0\<rparr>"

subsection \<open>Concrete inputs\<close>

text \<open>The scenario of the spec: a diamond.\<close>

definition diamond :: "row list" where
  "diamond = [(''a'', 2, []), (''b'', 3, [''a'']), (''c'', 2, [''a'']), (''d'', 5, [''b'', ''c''])]"

text \<open>Two rows named \<open>a\<close>, and a row that depends on \<open>a\<close>.\<close>

definition twins :: "row list" where
  "twins = [(''a'', 2, []), (''a'', 3, []), (''b'', 1, [''a''])]"

text \<open>Two independent tasks: two tasks without successors, finishing at 2 and at 5.\<close>

definition two_ends :: "row list" where
  "two_ends = [(''a'', 2, []), (''b'', 5, [])]"

text \<open>A run that no recursion depth lets return: the C++ recursion never comes back.\<close>

definition diverges :: "Task \<Rightarrow> row list \<Rightarrow> bool" where
  "diverges g rows = (\<forall>k. main k g rows = None)"

text \<open>The cycle of the spec: \<open>a\<close> depends on \<open>b\<close>, \<open>b\<close> depends on \<open>a\<close>.\<close>

definition two_cycle :: "row list" where
  "two_cycle = [(''a'', 2, [''b'']), (''b'', 3, [''a''])]"

text \<open>A dependency on a name that no row has.\<close>

definition missing_dep :: "row list" where
  "missing_dep = [(''a'', 2, [''z''])]"

text \<open>A task that depends on itself, followed by a task with a missing dependency.\<close>

definition loop_then_missing :: "row list" where
  "loop_then_missing = [(''a'', 1, [''a'']), (''b'', 1, [''z''])]"

subsection \<open>What the passes compute, as recurrences on the output\<close>

text \<open>
  The recurrences that the output of main satisfies on a valid DAG input, edge by edge:
  every dependency names a task;
  ES is 0 or the EF of a predecessor and at least the EF of every predecessor; LF of a task
  without successors is its own EF; LF of another task is \<^verbatim>\<open>INT_MAX\<close> or the LS of a
  successor and at most the LS of every successor.
\<close>

definition schedule_ok :: "Task list \<Rightarrow> bool" where
  "schedule_ok out =
     (distinct (map name out) \<and> acyclic (depRel out) \<and>
      (\<forall>t\<in>set out.
         EF t = ES t + duration t \<and> LS t = LF t - duration t \<and> slack t = LS t - ES t \<and>
         0 \<le> ES t \<and>
         (\<forall>d\<in>set (dependencies t). \<exists>p\<in>set out. name p = d) \<and>
         (\<forall>p\<in>set out. name p \<in> set (dependencies t) \<longrightarrow>
            EF p \<le> ES t \<and> LF p \<le> LS t \<and> name t \<in> set (successors p)) \<and>
         (ES t = 0 \<or> (\<exists>p\<in>set out. name p \<in> set (dependencies t) \<and> ES t = EF p)) \<and>
         (\<forall>s\<in>set (successors t). \<exists>q\<in>set out. name q = s \<and> name t \<in> set (dependencies q)) \<and>
         (successors t = [] \<longrightarrow> LF t = EF t) \<and>
         (successors t = [] \<or> LF t = INT_MAX \<or>
            (\<exists>q\<in>set out. name t \<in> set (dependencies q) \<and> LF t = LS q))))"

text \<open>A chain of predecessor-to-successor edges.\<close>

fun is_chain :: "Task list \<Rightarrow> bool" where
  "is_chain [] = True"
| "is_chain [t] = True"
| "is_chain (p # q # rest) =
     (name p \<in> set (dependencies q) \<and> name q \<in> set (successors p) \<and> is_chain (q # rest))"

subsection \<open>The two recursions with a log of their calls\<close>

text \<open>
  \<^verbatim>\<open>getEarlyStartScore\<close> and \<^verbatim>\<open>getLateFinishScore\<close> once more, line by line as
  above, each returning beside its value the names of the tasks it was called on, in the
  order of the calls. The log is what a counter at the entry of the C++ function would
  record.
\<close>

fun earlyStartLoop_log ::
  "(Task \<Rightarrow> (int \<times> string list) result) \<Rightarrow> string list \<Rightarrow> Task list \<Rightarrow> int \<Rightarrow> string list \<Rightarrow>
     (int \<times> string list) result" where
  "earlyStartLoop_log rec [] taskList es calls = Some (Inr (es, calls))"
| "earlyStartLoop_log rec (depName # rest) taskList es calls =
     (case getTaskFromList depName taskList of
        Inl e \<Rightarrow> Some (Inl e)
      | Inr depTask \<Rightarrow>
          bindR (rec depTask) (\<lambda>(score, inner).
            let depEF = score + duration depTask
            in earlyStartLoop_log rec rest taskList (if depEF > es then depEF else es)
                 (calls @ inner)))"

fun getEarlyStartScore_log :: "nat \<Rightarrow> Task \<Rightarrow> Task list \<Rightarrow> (int \<times> string list) result" where
  "getEarlyStartScore_log 0 task taskList = None"
| "getEarlyStartScore_log (Suc k) task taskList =
     (if dependencies task = [] then Some (Inr (0, [name task]))
      else earlyStartLoop_log (\<lambda>depTask. getEarlyStartScore_log k depTask taskList)
             (dependencies task) taskList 0 [name task])"

fun lateFinishLoop_log ::
  "(Task \<Rightarrow> (int \<times> string list) result) \<Rightarrow> string list \<Rightarrow> Task list \<Rightarrow> int \<Rightarrow> string list \<Rightarrow>
     (int \<times> string list) result" where
  "lateFinishLoop_log rec [] taskList lf calls = Some (Inr (lf, calls))"
| "lateFinishLoop_log rec (sName # rest) taskList lf calls =
     (case getTaskFromList sName taskList of
        Inl e \<Rightarrow> Some (Inl e)
      | Inr sTask \<Rightarrow>
          bindR (rec sTask) (\<lambda>(score, inner).
            let sLS = score - duration sTask
            in lateFinishLoop_log rec rest taskList (if sLS < lf then sLS else lf)
                 (calls @ inner)))"

fun getLateFinishScore_log :: "nat \<Rightarrow> Task \<Rightarrow> Task list \<Rightarrow> (int \<times> string list) result" where
  "getLateFinishScore_log 0 task taskList = None"
| "getLateFinishScore_log (Suc k) task taskList =
     (if successors task = [] then Some (Inr (EF task, [name task]))
      else lateFinishLoop_log (\<lambda>sTask. getLateFinishScore_log k sTask taskList)
             (successors task) taskList INT_MAX [name task])"

text \<open>Dropping the log.\<close>

definition value_of :: "(int \<times> string list) result \<Rightarrow> int result" where
  "value_of r = map_option (map_sum id fst) r"

text \<open>The diamond after the forward pass and populateSuccessors.\<close>

definition diamond_tasks :: "Task list" where
  "diamond_tasks =
     [\<lparr>name = ''a'', duration = 2, dependencies = [], successors = [''b'', ''c''],
        ES = 0, EF = 2, LS = 0, LF = 0, slack = 0\<rparr>,
      \<lparr>name = ''b'', duration = 3, dependencies = [''a''], successors = [''d''],
        ES = 2, EF = 5, LS = 0, LF = 0, slack = 0\<rparr>,
      \<lparr>name = ''c'', duration = 2, dependencies = [''a''], successors = [''d''],
        ES = 2, EF = 4, LS = 0, LF = 0, slack = 0\<rparr>,
      \<lparr>name = ''d'', duration = 5, dependencies = [''b'', ''c''], successors = [],
        ES = 5, EF = 10, LS = 0, LF = 0, slack = 0\<rparr>]"

subsection \<open>A ladder of diamonds\<close>

text \<open>
  \<open>ladder n\<close> stacks \<open>n\<close> diamonds: \<open>s0\<close> has no dependency; \<open>l\<close> and \<open>r\<close> of level
  \<open>i\<close> depend on \<open>s\<close> of level \<open>i\<close>, and \<open>s\<close> of level \<open>i + 1\<close> depends on both.
  The level is written in unary after the letter. Every duration is 1.
\<close>

definition sName :: "nat \<Rightarrow> string" where
  "sName i = CHR ''s'' # replicate i CHR ''x''"

definition lName :: "nat \<Rightarrow> string" where
  "lName i = CHR ''l'' # replicate i CHR ''x''"

definition rName :: "nat \<Rightarrow> string" where
  "rName i = CHR ''r'' # replicate i CHR ''x''"

fun ladder :: "nat \<Rightarrow> row list" where
  "ladder 0 = [(sName 0, 1, [])]"
| "ladder (Suc n) =
     ladder n @ [(lName n, 1, [sName n]), (rName n, 1, [sName n]),
                 (sName (Suc n), 1, [lName n, rName n])]"

text \<open>The dependencies of \<open>s\<close> of level \<open>i\<close>.\<close>

definition sDeps :: "nat \<Rightarrow> string list" where
  "sDeps i = (if i = 0 then [] else [lName (i - 1), rName (i - 1)])"

text \<open>The one-task scenario of the spec.\<close>

definition single :: "row list" where
  "single = [(''a'', 4, [])]"

section \<open>Lemmas\<close>

subsection \<open>Results and lookups\<close>

lemma bindR_simps:
  "bindR None f = None"
  "bindR (Some (Inl e)) f = Some (Inl e)"
  "bindR (Some (Inr v)) f = f v"
  by (simp_all add: bindR_def)

lemma bindR_eq_Some:
  "bindR m f = Some r \<longleftrightarrow>
     (\<exists>e. m = Some (Inl e) \<and> r = Inl e) \<or> (\<exists>v. m = Some (Inr v) \<and> f v = Some r)"
  by (auto simp: bindR_def split: option.splits sum.splits)

lemma bindR_eq_None:
  "bindR m f = None \<longleftrightarrow> m = None \<or> (\<exists>v. m = Some (Inr v) \<and> f v = None)"
  by (auto simp: bindR_def split: option.splits sum.splits)

lemma getTaskFromList_Inr:
  "getTaskFromList n ts = Inr t \<Longrightarrow> t \<in> set ts \<and> name t = n"
  by (induction ts) (auto split: if_splits)

lemma getTaskFromList_Inl:
  "getTaskFromList n ts = Inl e \<Longrightarrow> e = TaskNotFound n \<and> n \<notin> name ` set ts"
  by (induction ts) (auto split: if_splits)

lemma getTaskFromList_found:
  "n \<in> name ` set ts \<Longrightarrow> \<exists>t. getTaskFromList n ts = Inr t"
  by (induction ts) auto

lemma getTaskFromList_distinct:
  "distinct (map name ts) \<Longrightarrow> t \<in> set ts \<Longrightarrow> getTaskFromList (name t) ts = Inr t"
  by (induction ts) (auto simp: image_iff)

lemma getTaskObjectFromList_Inr:
  "getTaskObjectFromList n ts = Inr i \<Longrightarrow>
     i < length ts \<and> name (ts ! i) = n \<and> getTaskFromList n ts = Inr (ts ! i)"
  by (induction ts arbitrary: i) (auto split: if_splits sum.splits)

lemma getTaskObjectFromList_Inl:
  "getTaskObjectFromList n ts = Inl e \<Longrightarrow> e = TaskNotFound n \<and> n \<notin> name ` set ts"
  by (induction ts) (auto split: if_splits sum.splits)

lemma getTaskObjectFromList_names:
  "map name ts = map name ts' \<Longrightarrow> getTaskObjectFromList n ts = getTaskObjectFromList n ts'"
proof (induction ts arbitrary: ts')
  case Nil
  then show ?case by simp
next
  case (Cons t ts)
  then obtain u us where "ts' = u # us" by (cases ts') auto
  with Cons show ?case by auto
qed

subsection \<open>Forward pass: the recursion depth, the fields read, the results\<close>

text \<open>A result that a call gives within depth \<open>k\<close> it gives within every greater depth.\<close>

lemma earlyStartLoop_mono:
  "\<forall>t r. rec t = Some r \<longrightarrow> rec' t = Some r \<Longrightarrow>
   earlyStartLoop rec ds ts es = Some r \<Longrightarrow> earlyStartLoop rec' ds ts es = Some r"
proof (induction ds arbitrary: es)
  case Nil
  then show ?case by simp
next
  case (Cons d ds)
  show ?case
  proof (cases "getTaskFromList d ts")
    case (Inl e)
    with Cons.prems(2) show ?thesis by simp
  next
    case (Inr p)
    with Cons.prems(2) have
      "bindR (rec p) (\<lambda>score. earlyStartLoop rec ds ts
          (if score + duration p > es then score + duration p else es)) = Some r"
      by (simp add: Let_def)
    then consider (err) e where "rec p = Some (Inl e)" "r = Inl e"
      | (val) v where "rec p = Some (Inr v)"
          "earlyStartLoop rec ds ts (if v + duration p > es then v + duration p else es) = Some r"
      by (auto simp: bindR_eq_Some)
    then show ?thesis
    proof cases
      case err
      from err(1) have "rec' p = Some (Inl e)" using Cons.prems(1) by blast
      with Inr err(2) show ?thesis by (simp add: bindR_simps)
    next
      case val
      from val(1) have "rec' p = Some (Inr v)" using Cons.prems(1) by blast
      moreover from val(2) have
        "earlyStartLoop rec' ds ts (if v + duration p > es then v + duration p else es) = Some r"
        by (rule Cons.IH [OF Cons.prems(1)])
      ultimately show ?thesis using Inr by (simp add: bindR_simps Let_def)
    qed
  qed
qed

lemma getEarlyStartScore_Suc:
  "getEarlyStartScore k t ts = Some r \<Longrightarrow> getEarlyStartScore (Suc k) t ts = Some r"
proof (induction k arbitrary: t r)
  case 0
  then show ?case by simp
next
  case (Suc k)
  show ?case
  proof (cases "dependencies t = []")
    case True
    with Suc.prems show ?thesis by simp
  next
    case False
    with Suc.prems have
      "earlyStartLoop (\<lambda>p. getEarlyStartScore k p ts) (dependencies t) ts 0 = Some r"
      by simp
    then have
      "earlyStartLoop (\<lambda>p. getEarlyStartScore (Suc k) p ts) (dependencies t) ts 0 = Some r"
      by (rule earlyStartLoop_mono [rotated]) (blast intro: Suc.IH)
    with False show ?thesis by simp
  qed
qed

lemma getEarlyStartScore_mono:
  "k \<le> k' \<Longrightarrow> getEarlyStartScore k t ts = Some r \<Longrightarrow> getEarlyStartScore k' t ts = Some r"
proof (induction k')
  case 0
  then show ?case by simp
next
  case (Suc k')
  show ?case
  proof (cases "k = Suc k'")
    case True
    with Suc.prems show ?thesis by simp
  next
    case False
    with Suc.prems have "k \<le> k'" by simp
    then have "getEarlyStartScore k' t ts = Some r" using Suc.prems(2) by (rule Suc.IH)
    then show ?thesis by (rule getEarlyStartScore_Suc)
  qed
qed

lemma earlyStartLoop_Inr:
  "earlyStartLoop rec ds ts es = Some (Inr v) \<Longrightarrow>
     es \<le> v \<and>
     (\<forall>d\<in>set ds. \<exists>p s. getTaskFromList d ts = Inr p \<and> rec p = Some (Inr s) \<and>
        s + duration p \<le> v) \<and>
     (v = es \<or> (\<exists>d\<in>set ds. \<exists>p s. getTaskFromList d ts = Inr p \<and> rec p = Some (Inr s) \<and>
        v = s + duration p))"
proof (induction ds arbitrary: es)
  case Nil
  then show ?case by simp
next
  case (Cons d ds)
  from Cons.prems obtain p where p: "getTaskFromList d ts = Inr p"
    by (cases "getTaskFromList d ts") auto
  with Cons.prems obtain s where s: "rec p = Some (Inr s)"
    and rest: "earlyStartLoop rec ds ts (if s + duration p > es then s + duration p else es)
                 = Some (Inr v)"
    by (auto simp: bindR_eq_Some Let_def)
  from Cons.IH [OF rest] p s show ?case
    by (auto split: if_splits)
qed

lemma earlyStartLoop_Inl:
  "earlyStartLoop rec ds ts es = Some (Inl e) \<Longrightarrow>
     (\<exists>d\<in>set ds. getTaskFromList d ts = Inl e) \<or>
     (\<exists>d\<in>set ds. \<exists>p. getTaskFromList d ts = Inr p \<and> rec p = Some (Inl e))"
proof (induction ds arbitrary: es)
  case Nil
  then show ?case by simp
next
  case (Cons d ds)
  show ?case
  proof (cases "getTaskFromList d ts")
    case (Inl e')
    with Cons.prems show ?thesis by simp
  next
    case (Inr p)
    with Cons.prems consider "rec p = Some (Inl e)"
      | s where "earlyStartLoop rec ds ts (if s + duration p > es then s + duration p else es)
                 = Some (Inl e)"
      by (auto simp: bindR_eq_Some Let_def)
    then show ?thesis
    proof cases
      case 1
      with Inr show ?thesis by auto
    next
      case 2
      from Cons.IH [OF 2] show ?thesis by auto
    qed
  qed
qed

lemma earlyStartLoop_None:
  "earlyStartLoop rec ds ts es = None \<Longrightarrow>
     \<exists>d\<in>set ds. \<exists>p. getTaskFromList d ts = Inr p \<and> rec p = None"
proof (induction ds arbitrary: es)
  case Nil
  then show ?case by simp
next
  case (Cons d ds)
  from Cons.prems obtain p where p: "getTaskFromList d ts = Inr p"
    by (cases "getTaskFromList d ts") auto
  with Cons.prems consider "rec p = None"
    | s where "earlyStartLoop rec ds ts (if s + duration p > es then s + duration p else es) = None"
    by (auto simp: bindR_eq_None Let_def)
  then show ?case
  proof cases
    case 1
    with p show ?thesis by auto
  next
    case 2
    from Cons.IH [OF 2] show ?thesis by auto
  qed
qed

lemma getEarlyStartScore_Inl:
  "getEarlyStartScore k t ts = Some (Inl e) \<Longrightarrow>
     \<exists>m. e = TaskNotFound m \<and> m \<notin> name ` set ts \<and>
         (\<exists>t'\<in>insert t (set ts). m \<in> set (dependencies t'))"
proof (induction k arbitrary: t)
  case 0
  then show ?case by simp
next
  case (Suc k)
  then have "earlyStartLoop (\<lambda>p. getEarlyStartScore k p ts) (dependencies t) ts 0 = Some (Inl e)"
    by (simp split: if_splits)
  from earlyStartLoop_Inl [OF this] show ?case
  proof
    assume "\<exists>d\<in>set (dependencies t). getTaskFromList d ts = Inl e"
    then show ?thesis by (auto dest: getTaskFromList_Inl)
  next
    assume "\<exists>d\<in>set (dependencies t). \<exists>p. getTaskFromList d ts = Inr p \<and>
              getEarlyStartScore k p ts = Some (Inl e)"
    then obtain d p where "getTaskFromList d ts = Inr p" "getEarlyStartScore k p ts = Some (Inl e)"
      by blast
    from Suc.IH [OF this(2)] getTaskFromList_Inr [OF this(1)] show ?thesis by auto
  qed
qed

lemma getTaskFromList_static:
  "map static ts = map static ts' \<Longrightarrow>
     (case getTaskFromList n ts of
        Inl e \<Rightarrow> getTaskFromList n ts' = Inl e
      | Inr p \<Rightarrow> \<exists>p'. getTaskFromList n ts' = Inr p' \<and> static p' = static p)"
proof (induction ts arbitrary: ts')
  case Nil
  then show ?case by simp
next
  case (Cons t ts)
  then obtain u us where u: "ts' = u # us" "static u = static t" "map static ts = map static us"
    by (cases ts') auto
  from u(2) have "name u = name t" by (simp add: static_def)
  with Cons.IH [OF u(3)] u show ?case by (auto split: sum.splits)
qed

lemma earlyStartLoop_static:
  assumes "map static ts = map static ts'"
    and "\<forall>p p'. static p = static p' \<longrightarrow> rec p = rec' p'"
  shows "earlyStartLoop rec ds ts es = earlyStartLoop rec' ds ts' es"
proof (induction ds arbitrary: es)
  case Nil
  show ?case by simp
next
  case (Cons d ds)
  show ?case
  proof (cases "getTaskFromList d ts")
    case (Inl e)
    with getTaskFromList_static [OF assms(1), of d] show ?thesis by simp
  next
    case (Inr p)
    with getTaskFromList_static [OF assms(1), of d] obtain p' where
      p': "getTaskFromList d ts' = Inr p'" "static p' = static p" by auto
    from p'(2) have "duration p' = duration p" by (simp add: static_def)
    moreover from p'(2) assms(2) have "rec p = rec' p'" by metis
    ultimately show ?thesis using Inr p'(1) Cons.IH by simp
  qed
qed

lemma getEarlyStartScore_static:
  "map static ts = map static ts' \<Longrightarrow> static t = static t' \<Longrightarrow>
     getEarlyStartScore k t ts = getEarlyStartScore k t' ts'"
proof (induction k arbitrary: t t')
  case 0
  show ?case by simp
next
  case (Suc k)
  from Suc.prems(2) have d: "dependencies t = dependencies t'" by (simp add: static_def)
  have "earlyStartLoop (\<lambda>p. getEarlyStartScore k p ts) (dependencies t) ts 0 =
        earlyStartLoop (\<lambda>p. getEarlyStartScore k p ts') (dependencies t) ts' 0"
    by (rule earlyStartLoop_static [OF Suc.prems(1)]) (simp add: Suc.IH [OF Suc.prems(1)])
  with d show ?case by simp
qed

lemma static_early_update:
  "static (t\<lparr>ES := a, EF := b\<rparr>) = static t"
  by (simp add: static_def)

lemma map_static_early_update:
  "map static (ts[i := (ts ! i)\<lparr>ES := a, EF := b\<rparr>]) = map static ts"
proof (cases "i < length ts")
  case True
  then show ?thesis
    by (simp add: map_update static_early_update list_update_same_conv)
next
  case False
  then have "length ts \<le> i" by simp
  then show ?thesis by (simp add: list_update_beyond)
qed

lemma updateEarlyAt_Inr:
  "updateEarlyAt k is ts = Some (Inr ts') \<Longrightarrow> \<forall>i\<in>set is. i < length ts \<Longrightarrow> distinct is \<Longrightarrow>
     length ts' = length ts \<and>
     (\<forall>i<length ts.
        (i \<in> set is \<longrightarrow> (\<exists>v. getEarlyStartScore k (ts ! i) ts = Some (Inr v) \<and>
           ts' ! i = (ts ! i)\<lparr>ES := v, EF := v + duration (ts ! i)\<rparr>)) \<and>
        (i \<notin> set is \<longrightarrow> ts' ! i = ts ! i))"
proof (induction "is" arbitrary: ts)
  case Nil
  then show ?case by simp
next
  case (Cons i "is")
  from Cons.prems(1) obtain v where v: "getEarlyStartScore k (ts ! i) ts = Some (Inr v)"
    and rest: "updateEarlyAt k is (ts[i := (ts ! i)\<lparr>ES := v, EF := v + duration (ts ! i)\<rparr>])
                 = Some (Inr ts')"
    by (auto simp: bindR_eq_Some)
  let ?ts1 = "ts[i := (ts ! i)\<lparr>ES := v, EF := v + duration (ts ! i)\<rparr>]"
  have st: "map static ?ts1 = map static ts" by (rule map_static_early_update)
  from Cons.prems have i: "i < length ts" "i \<notin> set is" "distinct is" "\<forall>j\<in>set is. j < length ?ts1"
    by auto
  from Cons.IH [OF rest i(4) i(3)] have
    len: "length ts' = length ts" and
    ih: "\<forall>j<length ts.
        (j \<in> set is \<longrightarrow> (\<exists>w. getEarlyStartScore k (?ts1 ! j) ?ts1 = Some (Inr w) \<and>
           ts' ! j = (?ts1 ! j)\<lparr>ES := w, EF := w + duration (?ts1 ! j)\<rparr>)) \<and>
        (j \<notin> set is \<longrightarrow> ts' ! j = ?ts1 ! j)"
    by simp_all
  show ?case
  proof (intro conjI allI impI)
    show "length ts' = length ts" by (rule len)
  next
    fix j assume j: "j < length ts" "j \<in> set (i # is)"
    show "\<exists>v. getEarlyStartScore k (ts ! j) ts = Some (Inr v) \<and>
           ts' ! j = (ts ! j)\<lparr>ES := v, EF := v + duration (ts ! j)\<rparr>"
    proof (cases "j = i")
      case True
      with i(2) ih j(1) have "ts' ! j = ?ts1 ! j" by blast
      with True i(1) v show ?thesis by simp
    next
      case False
      with j have jin: "j \<in> set is" by simp
      from False have same: "?ts1 ! j = ts ! j" by simp
      from ih j(1) jin obtain w where
        w: "getEarlyStartScore k (?ts1 ! j) ?ts1 = Some (Inr w)"
           "ts' ! j = (?ts1 ! j)\<lparr>ES := w, EF := w + duration (?ts1 ! j)\<rparr>"
        by blast
      have "getEarlyStartScore k (?ts1 ! j) ?ts1 = getEarlyStartScore k (ts ! j) ts"
        using st same by (intro getEarlyStartScore_static) simp_all
      with w(1) have "getEarlyStartScore k (ts ! j) ts = Some (Inr w)" by simp
      moreover from w(2) same have "ts' ! j = (ts ! j)\<lparr>ES := w, EF := w + duration (ts ! j)\<rparr>"
        by simp
      ultimately show ?thesis by blast
    qed
  next
    fix j assume j: "j < length ts" "j \<notin> set (i # is)"
    with ih have "ts' ! j = ?ts1 ! j" by simp
    with j show "ts' ! j = ts ! j" by simp
  qed
qed

lemma updateAllEarlyVars_Inr:
  assumes "updateAllEarlyVars k ts = Some (Inr ts')"
  shows "length ts' = length ts"
    and "i < length ts \<Longrightarrow> \<exists>v. getEarlyStartScore k (ts ! i) ts = Some (Inr v) \<and>
           ts' ! i = (ts ! i)\<lparr>ES := v, EF := v + duration (ts ! i)\<rparr>"
proof -
  from assms have "updateEarlyAt k [0..<length ts] ts = Some (Inr ts')"
    by (simp add: updateAllEarlyVars_def)
  from updateEarlyAt_Inr [OF this] have
    *: "length ts' = length ts \<and>
     (\<forall>i<length ts.
        (i \<in> set [0..<length ts] \<longrightarrow> (\<exists>v. getEarlyStartScore k (ts ! i) ts = Some (Inr v) \<and>
           ts' ! i = (ts ! i)\<lparr>ES := v, EF := v + duration (ts ! i)\<rparr>)) \<and>
        (i \<notin> set [0..<length ts] \<longrightarrow> ts' ! i = ts ! i))"
    by simp
  from * show "length ts' = length ts" by simp
  from * show "i < length ts \<Longrightarrow> \<exists>v. getEarlyStartScore k (ts ! i) ts = Some (Inr v) \<and>
           ts' ! i = (ts ! i)\<lparr>ES := v, EF := v + duration (ts ! i)\<rparr>"
    by simp
qed

text \<open>A pass that throws or does not finish: one of its calls did.\<close>

lemma updateEarlyAt_fails:
  "\<forall>i\<in>set is. i < length ts \<Longrightarrow>
     (updateEarlyAt k is ts = None \<longrightarrow>
        (\<exists>i\<in>set is. getEarlyStartScore k (ts ! i) ts = None)) \<and>
     (updateEarlyAt k is ts = Some (Inl e) \<longrightarrow>
        (\<exists>i\<in>set is. getEarlyStartScore k (ts ! i) ts = Some (Inl e)))"
proof (induction "is" arbitrary: ts)
  case Nil
  then show ?case by simp
next
  case (Cons i "is")
  show ?case
  proof (cases "getEarlyStartScore k (ts ! i) ts")
    case None
    then show ?thesis by (simp add: bindR_simps)
  next
    case (Some x)
    show ?thesis
    proof (cases x)
      case (Inl e')
      with Some show ?thesis by (simp add: bindR_simps)
    next
      case (Inr v)
      let ?ts1 = "ts[i := (ts ! i)\<lparr>ES := v, EF := v + duration (ts ! i)\<rparr>]"
      have st: "map static ?ts1 = map static ts" by (rule map_static_early_update)
      from Inr Some have rest: "updateEarlyAt k (i # is) ts = updateEarlyAt k is ?ts1"
        by (simp add: bindR_simps)
      from Cons.prems have "\<forall>j\<in>set is. j < length ?ts1" by simp
      note ih = Cons.IH [OF this]
      have eq: "getEarlyStartScore k (?ts1 ! j) ?ts1 = getEarlyStartScore k (ts ! j) ts"
        if "j \<in> set is" for j
      proof -
        from Cons.prems that have jl: "j < length ts" by simp
        have "static (?ts1 ! j) = static (ts ! j)"
          using jl by (cases "j = i") (simp_all add: static_early_update)
        with st show ?thesis by (intro getEarlyStartScore_static)
      qed
      from ih eq show ?thesis unfolding rest by auto
    qed
  qed
qed

lemma updateAllEarlyVars_None:
  assumes "updateAllEarlyVars k ts = None"
  shows "\<exists>t\<in>set ts. getEarlyStartScore k t ts = None"
proof -
  from assms have "updateEarlyAt k [0..<length ts] ts = None"
    by (simp add: updateAllEarlyVars_def)
  with updateEarlyAt_fails [of "[0..<length ts]" ts k] obtain i where
    "i < length ts" "getEarlyStartScore k (ts ! i) ts = None" by auto
  then show ?thesis by (auto intro: bexI [of _ "ts ! i"])
qed

lemma updateAllEarlyVars_Inl:
  assumes "updateAllEarlyVars k ts = Some (Inl e)"
  shows "\<exists>t\<in>set ts. getEarlyStartScore k t ts = Some (Inl e)"
proof -
  from assms have "updateEarlyAt k [0..<length ts] ts = Some (Inl e)"
    by (simp add: updateAllEarlyVars_def)
  with updateEarlyAt_fails [of "[0..<length ts]" ts k e] obtain i where
    "i < length ts" "getEarlyStartScore k (ts ! i) ts = Some (Inl e)" by auto
  then show ?thesis by (auto intro: bexI [of _ "ts ! i"])
qed

subsection \<open>Forward pass: termination on an acyclic relation\<close>

text \<open>A relation that a rank into the natural numbers orders has no cycle.\<close>

lemma acyclic_rank:
  assumes "\<forall>(a, b)\<in>r. f a < (f b :: nat)"
  shows "acyclic r"
proof -
  from assms have "r \<subseteq> measure f" by auto
  then have "wf r" by (rule wf_subset [OF wf_measure])
  then show ?thesis by (rule wf_acyclic)
qed

lemma finite_depRel: "finite (depRel ts)"
proof -
  have "depRel ts \<subseteq> (\<Union>t\<in>set ts. set (dependencies t)) \<times> name ` set ts"
    by (auto simp: depRel_def)
  moreover have "finite ((\<Union>t\<in>set ts. set (dependencies t)) \<times> name ` set ts)"
    by simp
  ultimately show ?thesis by (rule finite_subset)
qed

lemma wf_depRel: "acyclic (depRel ts) \<Longrightarrow> wf (depRel ts)"
  by (rule finite_acyclic_wf [OF finite_depRel])

lemma wf_depRel_converse: "acyclic (depRel ts) \<Longrightarrow> wf ((depRel ts)\<inverse>)"
  by (rule finite_acyclic_wf_converse [OF finite_depRel])

lemma getEarlyStartScore_resolved:
  "resolvedT ts \<Longrightarrow> t \<in> set ts \<Longrightarrow> getEarlyStartScore k t ts \<noteq> Some (Inl e)"
  by (auto simp: resolvedT_def dest!: getEarlyStartScore_Inl)

lemma earlyStartLoop_terminates:
  "\<forall>d\<in>set ds. \<forall>p. getTaskFromList d ts = Inr p \<longrightarrow> (\<exists>k. getEarlyStartScore k p ts \<noteq> None) \<Longrightarrow>
     \<exists>k. earlyStartLoop (\<lambda>p. getEarlyStartScore k p ts) ds ts es \<noteq> None"
proof (induction ds arbitrary: es)
  case Nil
  show ?case by simp
next
  case (Cons d ds)
  show ?case
  proof (cases "getTaskFromList d ts")
    case (Inl e)
    then show ?thesis by simp
  next
    case (Inr p)
    with Cons.prems obtain k1 r1 where k1: "getEarlyStartScore k1 p ts = Some r1" by fastforce
    show ?thesis
    proof (cases r1)
      case (Inl e)
      with k1 Inr have
        "earlyStartLoop (\<lambda>p. getEarlyStartScore k1 p ts) (d # ds) ts es = Some (Inl e)"
        by (simp add: bindR_simps)
      then show ?thesis by (intro exI [of _ k1]) simp
    next
      case v: (Inr v)
      let ?es = "if v + duration p > es then v + duration p else es"
      from Cons.prems have "\<forall>d\<in>set ds. \<forall>p. getTaskFromList d ts = Inr p \<longrightarrow>
          (\<exists>k. getEarlyStartScore k p ts \<noteq> None)" by simp
      from Cons.IH [OF this, of ?es] obtain k2 r2 where
        k2: "earlyStartLoop (\<lambda>p. getEarlyStartScore k2 p ts) ds ts ?es = Some r2" by auto
      let ?k = "max k1 k2"
      from k1 v have "getEarlyStartScore ?k p ts = Some (Inr v)"
        by (auto intro: getEarlyStartScore_mono [of k1])
      moreover from k2 have "earlyStartLoop (\<lambda>p. getEarlyStartScore ?k p ts) ds ts ?es = Some r2"
        by (rule earlyStartLoop_mono [rotated]) (auto intro: getEarlyStartScore_mono [of k2])
      ultimately have
        "earlyStartLoop (\<lambda>p. getEarlyStartScore ?k p ts) (d # ds) ts es = Some r2"
        using Inr by (simp add: bindR_simps Let_def)
      then show ?thesis by (intro exI [of _ ?k]) simp
    qed
  qed
qed

lemma getEarlyStartScore_terminates_name:
  assumes "acyclic (depRel ts)"
  shows "\<forall>t\<in>set ts. name t = n \<longrightarrow> (\<exists>k. getEarlyStartScore k t ts \<noteq> None)"
  using wf_depRel [OF assms]
proof (induction n rule: wf_induct_rule)
  case (less n)
  show ?case
  proof (intro ballI impI)
    fix t assume t: "t \<in> set ts" "name t = n"
    have "\<forall>d\<in>set (dependencies t). \<forall>p. getTaskFromList d ts = Inr p \<longrightarrow>
            (\<exists>k. getEarlyStartScore k p ts \<noteq> None)"
    proof (intro ballI allI impI)
      fix d p assume d: "d \<in> set (dependencies t)" and p: "getTaskFromList d ts = Inr p"
      from d t have "(d, n) \<in> depRel ts" by (auto simp: depRel_def)
      from less [OF this] getTaskFromList_Inr [OF p]
      show "\<exists>k. getEarlyStartScore k p ts \<noteq> None" by blast
    qed
    from earlyStartLoop_terminates [OF this, of 0] obtain k where
      "earlyStartLoop (\<lambda>p. getEarlyStartScore k p ts) (dependencies t) ts 0 \<noteq> None" by blast
    then have "getEarlyStartScore (Suc k) t ts \<noteq> None" by simp
    then show "\<exists>k. getEarlyStartScore k t ts \<noteq> None" by blast
  qed
qed

lemma getEarlyStartScore_terminates_all:
  assumes "acyclic (depRel ts)"
  shows "set xs \<subseteq> set ts \<Longrightarrow> \<exists>k. \<forall>t\<in>set xs. getEarlyStartScore k t ts \<noteq> None"
proof (induction xs)
  case Nil
  show ?case by simp
next
  case (Cons x xs)
  then obtain k1 where k1: "\<forall>t\<in>set xs. getEarlyStartScore k1 t ts \<noteq> None" by auto
  from Cons.prems have "x \<in> set ts" by simp
  with getEarlyStartScore_terminates_name [OF assms, of "name x"]
  obtain k2 where k2: "getEarlyStartScore k2 x ts \<noteq> None" by blast
  have "\<forall>t\<in>set (x # xs). getEarlyStartScore (max k1 k2) t ts \<noteq> None"
  proof
    fix t assume "t \<in> set (x # xs)"
    then consider "t = x" | "t \<in> set xs" by auto
    then show "getEarlyStartScore (max k1 k2) t ts \<noteq> None"
    proof cases
      case 1
      from k2 obtain r where "getEarlyStartScore k2 x ts = Some r" by auto
      then have "getEarlyStartScore (max k1 k2) x ts = Some r"
        by (rule getEarlyStartScore_mono [rotated]) simp
      with 1 show ?thesis by simp
    next
      case 2
      with k1 obtain r where "getEarlyStartScore k1 t ts = Some r" by auto
      then have "getEarlyStartScore (max k1 k2) t ts = Some r"
        by (rule getEarlyStartScore_mono [rotated]) simp
      then show ?thesis by simp
    qed
  qed
  then show ?case by blast
qed

lemma updateAllEarlyVars_terminates:
  assumes "acyclic (depRel ts)"
  shows "\<exists>k. updateAllEarlyVars k ts \<noteq> None"
proof -
  from getEarlyStartScore_terminates_all [OF assms, of ts] obtain k where
    "\<forall>t\<in>set ts. getEarlyStartScore k t ts \<noteq> None" by auto
  with updateAllEarlyVars_None [of k ts] have "updateAllEarlyVars k ts \<noteq> None" by blast
  then show ?thesis ..
qed

lemma updateAllEarlyVars_succeeds:
  assumes "acyclic (depRel ts)" "resolvedT ts"
  shows "\<exists>k ts'. updateAllEarlyVars k ts = Some (Inr ts')"
proof -
  from updateAllEarlyVars_terminates [OF assms(1)] obtain k r where
    r: "updateAllEarlyVars k ts = Some r" by auto
  show ?thesis
  proof (cases r)
    case (Inl e)
    with r updateAllEarlyVars_Inl obtain t where
      "t \<in> set ts" "getEarlyStartScore k t ts = Some (Inl e)" by blast
    with getEarlyStartScore_resolved [OF assms(2)] show ?thesis by blast
  next
    case (Inr ts')
    with r show ?thesis by blast
  qed
qed

subsection \<open>Backward pass: the recursion depth, the fields read, the results\<close>

lemma lateFinishLoop_mono:
  "\<forall>t r. rec t = Some r \<longrightarrow> rec' t = Some r \<Longrightarrow>
   lateFinishLoop rec ds ts es = Some r \<Longrightarrow> lateFinishLoop rec' ds ts es = Some r"
proof (induction ds arbitrary: es)
  case Nil
  then show ?case by simp
next
  case (Cons d ds)
  show ?case
  proof (cases "getTaskFromList d ts")
    case (Inl e)
    with Cons.prems(2) show ?thesis by simp
  next
    case (Inr p)
    with Cons.prems(2) have
      "bindR (rec p) (\<lambda>score. lateFinishLoop rec ds ts
          (if score - duration p < es then score - duration p else es)) = Some r"
      by (simp add: Let_def)
    then consider (err) e where "rec p = Some (Inl e)" "r = Inl e"
      | (val) v where "rec p = Some (Inr v)"
          "lateFinishLoop rec ds ts (if v - duration p < es then v - duration p else es) = Some r"
      by (auto simp: bindR_eq_Some)
    then show ?thesis
    proof cases
      case err
      from err(1) have "rec' p = Some (Inl e)" using Cons.prems(1) by blast
      with Inr err(2) show ?thesis by (simp add: bindR_simps)
    next
      case val
      from val(1) have "rec' p = Some (Inr v)" using Cons.prems(1) by blast
      moreover from val(2) have
        "lateFinishLoop rec' ds ts (if v - duration p < es then v - duration p else es) = Some r"
        by (rule Cons.IH [OF Cons.prems(1)])
      ultimately show ?thesis using Inr by (simp add: bindR_simps Let_def)
    qed
  qed
qed

lemma getLateFinishScore_Suc:
  "getLateFinishScore k t ts = Some r \<Longrightarrow> getLateFinishScore (Suc k) t ts = Some r"
proof (induction k arbitrary: t r)
  case 0
  then show ?case by simp
next
  case (Suc k)
  show ?case
  proof (cases "successors t = []")
    case True
    with Suc.prems show ?thesis by simp
  next
    case False
    with Suc.prems have
      "lateFinishLoop (\<lambda>p. getLateFinishScore k p ts) (successors t) ts INT_MAX = Some r"
      by simp
    then have
      "lateFinishLoop (\<lambda>p. getLateFinishScore (Suc k) p ts) (successors t) ts INT_MAX = Some r"
      by (rule lateFinishLoop_mono [rotated]) (blast intro: Suc.IH)
    with False show ?thesis by simp
  qed
qed

lemma getLateFinishScore_mono:
  "k \<le> k' \<Longrightarrow> getLateFinishScore k t ts = Some r \<Longrightarrow> getLateFinishScore k' t ts = Some r"
proof (induction k')
  case 0
  then show ?case by simp
next
  case (Suc k')
  show ?case
  proof (cases "k = Suc k'")
    case True
    with Suc.prems show ?thesis by simp
  next
    case False
    with Suc.prems have "k \<le> k'" by simp
    then have "getLateFinishScore k' t ts = Some r" using Suc.prems(2) by (rule Suc.IH)
    then show ?thesis by (rule getLateFinishScore_Suc)
  qed
qed

lemma lateFinishLoop_Inr:
  "lateFinishLoop rec ds ts es = Some (Inr v) \<Longrightarrow>
     v \<le> es \<and>
     (\<forall>d\<in>set ds. \<exists>p s. getTaskFromList d ts = Inr p \<and> rec p = Some (Inr s) \<and>
        v \<le> s - duration p) \<and>
     (v = es \<or> (\<exists>d\<in>set ds. \<exists>p s. getTaskFromList d ts = Inr p \<and> rec p = Some (Inr s) \<and>
        v = s - duration p))"
proof (induction ds arbitrary: es)
  case Nil
  then show ?case by simp
next
  case (Cons d ds)
  from Cons.prems obtain p where p: "getTaskFromList d ts = Inr p"
    by (cases "getTaskFromList d ts") auto
  with Cons.prems obtain s where s: "rec p = Some (Inr s)"
    and rest: "lateFinishLoop rec ds ts (if s - duration p < es then s - duration p else es)
                 = Some (Inr v)"
    by (auto simp: bindR_eq_Some Let_def)
  from Cons.IH [OF rest] p s show ?case
    by (auto split: if_splits)
qed

lemma lateFinishLoop_Inl:
  "lateFinishLoop rec ds ts es = Some (Inl e) \<Longrightarrow>
     (\<exists>d\<in>set ds. getTaskFromList d ts = Inl e) \<or>
     (\<exists>d\<in>set ds. \<exists>p. getTaskFromList d ts = Inr p \<and> rec p = Some (Inl e))"
proof (induction ds arbitrary: es)
  case Nil
  then show ?case by simp
next
  case (Cons d ds)
  show ?case
  proof (cases "getTaskFromList d ts")
    case (Inl e')
    with Cons.prems show ?thesis by simp
  next
    case (Inr p)
    with Cons.prems consider "rec p = Some (Inl e)"
      | s where "lateFinishLoop rec ds ts (if s - duration p < es then s - duration p else es)
                 = Some (Inl e)"
      by (auto simp: bindR_eq_Some Let_def)
    then show ?thesis
    proof cases
      case 1
      with Inr show ?thesis by auto
    next
      case 2
      from Cons.IH [OF 2] show ?thesis by auto
    qed
  qed
qed

lemma lateFinishLoop_None:
  "lateFinishLoop rec ds ts es = None \<Longrightarrow>
     \<exists>d\<in>set ds. \<exists>p. getTaskFromList d ts = Inr p \<and> rec p = None"
proof (induction ds arbitrary: es)
  case Nil
  then show ?case by simp
next
  case (Cons d ds)
  from Cons.prems obtain p where p: "getTaskFromList d ts = Inr p"
    by (cases "getTaskFromList d ts") auto
  with Cons.prems consider "rec p = None"
    | s where "lateFinishLoop rec ds ts (if s - duration p < es then s - duration p else es) = None"
    by (auto simp: bindR_eq_None Let_def)
  then show ?case
  proof cases
    case 1
    with p show ?thesis by auto
  next
    case 2
    from Cons.IH [OF 2] show ?thesis by auto
  qed
qed

lemma getLateFinishScore_Inl:
  "getLateFinishScore k t ts = Some (Inl e) \<Longrightarrow>
     \<exists>m. e = TaskNotFound m \<and> m \<notin> name ` set ts \<and>
         (\<exists>t'\<in>insert t (set ts). m \<in> set (successors t'))"
proof (induction k arbitrary: t)
  case 0
  then show ?case by simp
next
  case (Suc k)
  then have "lateFinishLoop (\<lambda>p. getLateFinishScore k p ts) (successors t) ts INT_MAX = Some (Inl e)"
    by (simp split: if_splits)
  from lateFinishLoop_Inl [OF this] show ?case
  proof
    assume "\<exists>d\<in>set (successors t). getTaskFromList d ts = Inl e"
    then show ?thesis by (auto dest: getTaskFromList_Inl)
  next
    assume "\<exists>d\<in>set (successors t). \<exists>p. getTaskFromList d ts = Inr p \<and>
              getLateFinishScore k p ts = Some (Inl e)"
    then obtain d p where "getTaskFromList d ts = Inr p" "getLateFinishScore k p ts = Some (Inl e)"
      by blast
    from Suc.IH [OF this(2)] getTaskFromList_Inr [OF this(1)] show ?thesis by auto
  qed
qed

lemma getTaskFromList_lstatic:
  "map lstatic ts = map lstatic ts' \<Longrightarrow>
     (case getTaskFromList n ts of
        Inl e \<Rightarrow> getTaskFromList n ts' = Inl e
      | Inr p \<Rightarrow> \<exists>p'. getTaskFromList n ts' = Inr p' \<and> lstatic p' = lstatic p)"
proof (induction ts arbitrary: ts')
  case Nil
  then show ?case by simp
next
  case (Cons t ts)
  then obtain u us where u: "ts' = u # us" "lstatic u = lstatic t" "map lstatic ts = map lstatic us"
    by (cases ts') auto
  from u(2) have "name u = name t" by (simp add: lstatic_def)
  with Cons.IH [OF u(3)] u show ?case by (auto split: sum.splits)
qed

lemma lateFinishLoop_lstatic:
  assumes "map lstatic ts = map lstatic ts'"
    and "\<forall>p p'. lstatic p = lstatic p' \<longrightarrow> rec p = rec' p'"
  shows "lateFinishLoop rec ds ts es = lateFinishLoop rec' ds ts' es"
proof (induction ds arbitrary: es)
  case Nil
  show ?case by simp
next
  case (Cons d ds)
  show ?case
  proof (cases "getTaskFromList d ts")
    case (Inl e)
    with getTaskFromList_lstatic [OF assms(1), of d] show ?thesis by simp
  next
    case (Inr p)
    with getTaskFromList_lstatic [OF assms(1), of d] obtain p' where
      p': "getTaskFromList d ts' = Inr p'" "lstatic p' = lstatic p" by auto
    from p'(2) have "duration p' = duration p" by (simp add: lstatic_def)
    moreover from p'(2) assms(2) have "rec p = rec' p'" by metis
    ultimately show ?thesis using Inr p'(1) Cons.IH by simp
  qed
qed

lemma getLateFinishScore_lstatic:
  "map lstatic ts = map lstatic ts' \<Longrightarrow> lstatic t = lstatic t' \<Longrightarrow>
     getLateFinishScore k t ts = getLateFinishScore k t' ts'"
proof (induction k arbitrary: t t')
  case 0
  show ?case by simp
next
  case (Suc k)
  from Suc.prems(2) have d: "successors t = successors t'" "EF t = EF t'"
    by (simp_all add: lstatic_def)
  have "lateFinishLoop (\<lambda>p. getLateFinishScore k p ts) (successors t) ts INT_MAX =
        lateFinishLoop (\<lambda>p. getLateFinishScore k p ts') (successors t) ts' INT_MAX"
    by (rule lateFinishLoop_lstatic [OF Suc.prems(1)]) (simp add: Suc.IH [OF Suc.prems(1)])
  with d show ?case by simp
qed

lemma lstatic_late_update:
  "lstatic (t\<lparr>LF := a, LS := b\<rparr>) = lstatic t"
  by (simp add: lstatic_def)

lemma map_lstatic_late_update:
  "map lstatic (ts[i := (ts ! i)\<lparr>LF := a, LS := b\<rparr>]) = map lstatic ts"
proof (cases "i < length ts")
  case True
  then show ?thesis
    by (simp add: map_update lstatic_late_update list_update_same_conv)
next
  case False
  then have "length ts \<le> i" by simp
  then show ?thesis by (simp add: list_update_beyond)
qed

lemma updateLateAt_Inr:
  "updateLateAt k is ts = Some (Inr ts') \<Longrightarrow> \<forall>i\<in>set is. i < length ts \<Longrightarrow> distinct is \<Longrightarrow>
     length ts' = length ts \<and>
     (\<forall>i<length ts.
        (i \<in> set is \<longrightarrow> (\<exists>v. getLateFinishScore k (ts ! i) ts = Some (Inr v) \<and>
           ts' ! i = (ts ! i)\<lparr>LF := v, LS := v - duration (ts ! i)\<rparr>)) \<and>
        (i \<notin> set is \<longrightarrow> ts' ! i = ts ! i))"
proof (induction "is" arbitrary: ts)
  case Nil
  then show ?case by simp
next
  case (Cons i "is")
  from Cons.prems(1) obtain v where v: "getLateFinishScore k (ts ! i) ts = Some (Inr v)"
    and rest: "updateLateAt k is (ts[i := (ts ! i)\<lparr>LF := v, LS := v - duration (ts ! i)\<rparr>])
                 = Some (Inr ts')"
    by (auto simp: bindR_eq_Some)
  let ?ts1 = "ts[i := (ts ! i)\<lparr>LF := v, LS := v - duration (ts ! i)\<rparr>]"
  have st: "map lstatic ?ts1 = map lstatic ts" by (rule map_lstatic_late_update)
  from Cons.prems have i: "i < length ts" "i \<notin> set is" "distinct is" "\<forall>j\<in>set is. j < length ?ts1"
    by auto
  from Cons.IH [OF rest i(4) i(3)] have
    len: "length ts' = length ts" and
    ih: "\<forall>j<length ts.
        (j \<in> set is \<longrightarrow> (\<exists>w. getLateFinishScore k (?ts1 ! j) ?ts1 = Some (Inr w) \<and>
           ts' ! j = (?ts1 ! j)\<lparr>LF := w, LS := w - duration (?ts1 ! j)\<rparr>)) \<and>
        (j \<notin> set is \<longrightarrow> ts' ! j = ?ts1 ! j)"
    by simp_all
  show ?case
  proof (intro conjI allI impI)
    show "length ts' = length ts" by (rule len)
  next
    fix j assume j: "j < length ts" "j \<in> set (i # is)"
    show "\<exists>v. getLateFinishScore k (ts ! j) ts = Some (Inr v) \<and>
           ts' ! j = (ts ! j)\<lparr>LF := v, LS := v - duration (ts ! j)\<rparr>"
    proof (cases "j = i")
      case True
      with i(2) ih j(1) have "ts' ! j = ?ts1 ! j" by blast
      with True i(1) v show ?thesis by simp
    next
      case False
      with j have jin: "j \<in> set is" by simp
      from False have same: "?ts1 ! j = ts ! j" by simp
      from ih j(1) jin obtain w where
        w: "getLateFinishScore k (?ts1 ! j) ?ts1 = Some (Inr w)"
           "ts' ! j = (?ts1 ! j)\<lparr>LF := w, LS := w - duration (?ts1 ! j)\<rparr>"
        by blast
      have "getLateFinishScore k (?ts1 ! j) ?ts1 = getLateFinishScore k (ts ! j) ts"
        using st same by (intro getLateFinishScore_lstatic) simp_all
      with w(1) have "getLateFinishScore k (ts ! j) ts = Some (Inr w)" by simp
      moreover from w(2) same have "ts' ! j = (ts ! j)\<lparr>LF := w, LS := w - duration (ts ! j)\<rparr>"
        by simp
      ultimately show ?thesis by blast
    qed
  next
    fix j assume j: "j < length ts" "j \<notin> set (i # is)"
    with ih have "ts' ! j = ?ts1 ! j" by simp
    with j show "ts' ! j = ts ! j" by simp
  qed
qed

lemma updateAllLateVars_Inr:
  assumes "updateAllLateVars k ts = Some (Inr ts')"
  shows "length ts' = length ts"
    and "i < length ts \<Longrightarrow> \<exists>v. getLateFinishScore k (ts ! i) ts = Some (Inr v) \<and>
           ts' ! i = (ts ! i)\<lparr>LF := v, LS := v - duration (ts ! i)\<rparr>"
proof -
  from assms have "updateLateAt k [0..<length ts] ts = Some (Inr ts')"
    by (simp add: updateAllLateVars_def)
  from updateLateAt_Inr [OF this] have
    *: "length ts' = length ts \<and>
     (\<forall>i<length ts.
        (i \<in> set [0..<length ts] \<longrightarrow> (\<exists>v. getLateFinishScore k (ts ! i) ts = Some (Inr v) \<and>
           ts' ! i = (ts ! i)\<lparr>LF := v, LS := v - duration (ts ! i)\<rparr>)) \<and>
        (i \<notin> set [0..<length ts] \<longrightarrow> ts' ! i = ts ! i))"
    by simp
  from * show "length ts' = length ts" by simp
  from * show "i < length ts \<Longrightarrow> \<exists>v. getLateFinishScore k (ts ! i) ts = Some (Inr v) \<and>
           ts' ! i = (ts ! i)\<lparr>LF := v, LS := v - duration (ts ! i)\<rparr>"
    by simp
qed

text \<open>A pass that throws or does not finish: one of its calls did.\<close>

lemma updateLateAt_fails:
  "\<forall>i\<in>set is. i < length ts \<Longrightarrow>
     (updateLateAt k is ts = None \<longrightarrow>
        (\<exists>i\<in>set is. getLateFinishScore k (ts ! i) ts = None)) \<and>
     (updateLateAt k is ts = Some (Inl e) \<longrightarrow>
        (\<exists>i\<in>set is. getLateFinishScore k (ts ! i) ts = Some (Inl e)))"
proof (induction "is" arbitrary: ts)
  case Nil
  then show ?case by simp
next
  case (Cons i "is")
  show ?case
  proof (cases "getLateFinishScore k (ts ! i) ts")
    case None
    then show ?thesis by (simp add: bindR_simps)
  next
    case (Some x)
    show ?thesis
    proof (cases x)
      case (Inl e')
      with Some show ?thesis by (simp add: bindR_simps)
    next
      case (Inr v)
      let ?ts1 = "ts[i := (ts ! i)\<lparr>LF := v, LS := v - duration (ts ! i)\<rparr>]"
      have st: "map lstatic ?ts1 = map lstatic ts" by (rule map_lstatic_late_update)
      from Inr Some have rest: "updateLateAt k (i # is) ts = updateLateAt k is ?ts1"
        by (simp add: bindR_simps)
      from Cons.prems have "\<forall>j\<in>set is. j < length ?ts1" by simp
      note ih = Cons.IH [OF this]
      have eq: "getLateFinishScore k (?ts1 ! j) ?ts1 = getLateFinishScore k (ts ! j) ts"
        if "j \<in> set is" for j
      proof -
        from Cons.prems that have jl: "j < length ts" by simp
        have "lstatic (?ts1 ! j) = lstatic (ts ! j)"
          using jl by (cases "j = i") (simp_all add: lstatic_late_update)
        with st show ?thesis by (intro getLateFinishScore_lstatic)
      qed
      from ih eq show ?thesis unfolding rest by auto
    qed
  qed
qed

lemma updateAllLateVars_None:
  assumes "updateAllLateVars k ts = None"
  shows "\<exists>t\<in>set ts. getLateFinishScore k t ts = None"
proof -
  from assms have "updateLateAt k [0..<length ts] ts = None"
    by (simp add: updateAllLateVars_def)
  with updateLateAt_fails [of "[0..<length ts]" ts k] obtain i where
    "i < length ts" "getLateFinishScore k (ts ! i) ts = None" by auto
  then show ?thesis by (auto intro: bexI [of _ "ts ! i"])
qed

lemma updateAllLateVars_Inl:
  assumes "updateAllLateVars k ts = Some (Inl e)"
  shows "\<exists>t\<in>set ts. getLateFinishScore k t ts = Some (Inl e)"
proof -
  from assms have "updateLateAt k [0..<length ts] ts = Some (Inl e)"
    by (simp add: updateAllLateVars_def)
  with updateLateAt_fails [of "[0..<length ts]" ts k e] obtain i where
    "i < length ts" "getLateFinishScore k (ts ! i) ts = Some (Inl e)" by auto
  then show ?thesis by (auto intro: bexI [of _ "ts ! i"])
qed

subsection \<open>Successors\<close>

lemma unsucc_fields:
  "unsucc t = unsucc t' \<Longrightarrow>
     name t = name t' \<and> duration t = duration t' \<and> dependencies t = dependencies t' \<and>
     ES t = ES t' \<and> EF t = EF t' \<and> LS t = LS t' \<and> LF t = LF t' \<and> slack t = slack t'"
  unfolding unsucc_def by (cases t, cases t') simp

lemma map_unsucc_names: "map unsucc ts' = map unsucc ts \<Longrightarrow> map name ts' = map name ts"
proof -
  assume a: "map unsucc ts' = map unsucc ts"
  have "name = (\<lambda>t. name (unsucc t))" by (simp add: unsucc_def fun_eq_iff)
  then have "map name ts' = map (name \<circ> unsucc) ts'" "map name ts = map (name \<circ> unsucc) ts"
    by (simp_all add: comp_def)
  with a show ?thesis by (metis map_map)
qed

lemma map_unsucc_nth:
  "map unsucc ts' = map unsucc ts \<Longrightarrow> j < length ts \<Longrightarrow> unsucc (ts' ! j) = unsucc (ts ! j)"
  by (metis length_map nth_map)

lemma pushSuccessors_Inr:
  "pushSuccessors tn ds ts = Inr ts' \<Longrightarrow>
     map unsucc ts' = map unsucc ts \<and>
     (\<forall>j<length ts. set (successors (ts' ! j)) =
        set (successors (ts ! j)) \<union>
        (if \<exists>d\<in>set ds. getTaskObjectFromList d ts = Inr j then {tn} else {}))"
proof (induction ds arbitrary: ts)
  case Nil
  then show ?case by simp
next
  case (Cons d ds)
  from Cons.prems obtain j0 where j0: "getTaskObjectFromList d ts = Inr j0"
    by (cases "getTaskObjectFromList d ts") auto
  let ?ts1 = "ts[j0 := (ts ! j0)\<lparr>successors := successors (ts ! j0) @ [tn]\<rparr>]"
  from getTaskObjectFromList_Inr [OF j0] have j0l: "j0 < length ts" by simp
  from j0 Cons.prems have rest: "pushSuccessors tn ds ?ts1 = Inr ts'" by simp
  have u1: "map unsucc ?ts1 = map unsucc ts"
    using j0l by (simp add: map_update unsucc_def list_update_same_conv)
  then have names: "map name ?ts1 = map name ts" by (rule map_unsucc_names)
  have look: "getTaskObjectFromList d' ?ts1 = getTaskObjectFromList d' ts" for d'
    by (rule getTaskObjectFromList_names [OF names])
  from Cons.IH [OF rest] have ih1: "map unsucc ts' = map unsucc ?ts1"
    and ih2: "\<forall>j<length ts. set (successors (ts' ! j)) =
        set (successors (?ts1 ! j)) \<union>
        (if \<exists>d\<in>set ds. getTaskObjectFromList d ts = Inr j then {tn} else {})"
    by (simp_all add: look)
  show ?case
  proof (intro conjI allI impI)
    from ih1 u1 show "map unsucc ts' = map unsucc ts" by simp
  next
    fix j assume j: "j < length ts"
    show "set (successors (ts' ! j)) =
        set (successors (ts ! j)) \<union>
        (if \<exists>d\<in>set (d # ds). getTaskObjectFromList d ts = Inr j then {tn} else {})"
    proof (cases "j = j0")
      case True
      with ih2 j j0 j0l show ?thesis by auto
    next
      case False
      with ih2 j j0 show ?thesis by auto
    qed
  qed
qed

lemma pushSuccessors_succeeds:
  "set ds \<subseteq> name ` set ts \<Longrightarrow> \<exists>ts'. pushSuccessors tn ds ts = Inr ts'"
proof (induction ds arbitrary: ts)
  case Nil
  show ?case by simp
next
  case (Cons d ds)
  from Cons.prems obtain j0 where j0: "getTaskObjectFromList d ts = Inr j0"
    by (cases "getTaskObjectFromList d ts") (auto dest: getTaskObjectFromList_Inl)
  let ?ts1 = "ts[j0 := (ts ! j0)\<lparr>successors := successors (ts ! j0) @ [tn]\<rparr>]"
  from getTaskObjectFromList_Inr [OF j0] have j0l: "j0 < length ts" by simp
  have "map name ?ts1 = map name ts"
    using j0l by (simp add: map_update list_update_same_conv)
  then have "name ` set ?ts1 = name ` set ts" by (metis set_map)
  with Cons.prems have "set ds \<subseteq> name ` set ?ts1" by simp
  from Cons.IH [OF this] j0 show ?case by simp
qed

lemma populateAt_Inr:
  "populateAt is ts = Inr ts' \<Longrightarrow> \<forall>i\<in>set is. i < length ts \<Longrightarrow>
     map unsucc ts' = map unsucc ts \<and>
     (\<forall>j<length ts. set (successors (ts' ! j)) =
        set (successors (ts ! j)) \<union>
        {name (ts ! i) | i. i \<in> set is \<and>
           (\<exists>d\<in>set (dependencies (ts ! i)). getTaskObjectFromList d ts = Inr j)})"
proof (induction "is" arbitrary: ts)
  case Nil
  then show ?case by simp
next
  case (Cons i "is")
  from Cons.prems(1) obtain ts1 where
    ts1: "pushSuccessors (name (ts ! i)) (dependencies (ts ! i)) ts = Inr ts1"
    and rest: "populateAt is ts1 = Inr ts'"
    by (auto split: sum.splits)
  from pushSuccessors_Inr [OF ts1] have u1: "map unsucc ts1 = map unsucc ts"
    and s1: "\<forall>j<length ts. set (successors (ts1 ! j)) =
        set (successors (ts ! j)) \<union>
        (if \<exists>d\<in>set (dependencies (ts ! i)). getTaskObjectFromList d ts = Inr j
         then {name (ts ! i)} else {})"
    by simp_all
  from u1 have len: "length ts1 = length ts" by (metis length_map)
  from u1 have names: "map name ts1 = map name ts" by (rule map_unsucc_names)
  have look: "getTaskObjectFromList d' ts1 = getTaskObjectFromList d' ts" for d'
    by (rule getTaskObjectFromList_names [OF names])
  have fld: "name (ts1 ! j) = name (ts ! j) \<and> dependencies (ts1 ! j) = dependencies (ts ! j)"
    if "j < length ts" for j
    using map_unsucc_nth [OF u1 that] unsucc_fields by blast
  from Cons.prems(2) len have "\<forall>i\<in>set is. i < length ts1" by simp
  from Cons.IH [OF rest this] have ih1: "map unsucc ts' = map unsucc ts1"
    and ih2: "\<forall>j<length ts. set (successors (ts' ! j)) =
        set (successors (ts1 ! j)) \<union>
        {name (ts1 ! i) | i. i \<in> set is \<and>
           (\<exists>d\<in>set (dependencies (ts1 ! i)). getTaskObjectFromList d ts = Inr j)}"
    by (simp_all add: look len)
  have ih2': "\<forall>j<length ts. set (successors (ts' ! j)) =
        set (successors (ts1 ! j)) \<union>
        {name (ts ! i) | i. i \<in> set is \<and>
           (\<exists>d\<in>set (dependencies (ts ! i)). getTaskObjectFromList d ts = Inr j)}"
  proof (intro allI impI)
    fix j assume "j < length ts"
    with ih2 have "set (successors (ts' ! j)) =
        set (successors (ts1 ! j)) \<union>
        {name (ts1 ! i) | i. i \<in> set is \<and>
           (\<exists>d\<in>set (dependencies (ts1 ! i)). getTaskObjectFromList d ts = Inr j)}" by simp
    moreover have "{name (ts1 ! i) | i. i \<in> set is \<and>
           (\<exists>d\<in>set (dependencies (ts1 ! i)). getTaskObjectFromList d ts = Inr j)} =
        {name (ts ! i) | i. i \<in> set is \<and>
           (\<exists>d\<in>set (dependencies (ts ! i)). getTaskObjectFromList d ts = Inr j)}"
      using fld Cons.prems(2) by (intro Collect_cong) (metis list.set_intros(2))
    ultimately show "set (successors (ts' ! j)) =
        set (successors (ts1 ! j)) \<union>
        {name (ts ! i) | i. i \<in> set is \<and>
           (\<exists>d\<in>set (dependencies (ts ! i)). getTaskObjectFromList d ts = Inr j)}" by simp
  qed
  show ?case
  proof (intro conjI allI impI)
    from ih1 u1 show "map unsucc ts' = map unsucc ts" by simp
  next
    fix j assume j: "j < length ts"
    from ih2' s1 j show "set (successors (ts' ! j)) =
        set (successors (ts ! j)) \<union>
        {name (ts ! ia) | ia. ia \<in> set (i # is) \<and>
           (\<exists>d\<in>set (dependencies (ts ! ia)). getTaskObjectFromList d ts = Inr j)}"
      by auto
  qed
qed

lemma populateAt_succeeds:
  "\<forall>i\<in>set is. i < length ts \<Longrightarrow> resolvedT ts \<Longrightarrow> \<exists>ts'. populateAt is ts = Inr ts'"
proof (induction "is" arbitrary: ts)
  case Nil
  show ?case by simp
next
  case (Cons i "is")
  from Cons.prems(1) have "ts ! i \<in> set ts" by simp
  with Cons.prems(2) have "set (dependencies (ts ! i)) \<subseteq> name ` set ts"
    unfolding resolvedT_def by blast
  from pushSuccessors_succeeds [OF this] obtain ts1 where
    ts1: "pushSuccessors (name (ts ! i)) (dependencies (ts ! i)) ts = Inr ts1" by blast
  from pushSuccessors_Inr [OF ts1] have u1: "map unsucc ts1 = map unsucc ts" by simp
  then have len: "length ts1 = length ts" by (metis length_map)
  from map_unsucc_names [OF u1] have nm: "name ` set ts1 = name ` set ts" by (metis set_map)
  have "resolvedT ts1"
    unfolding resolvedT_def
  proof (intro ballI)
    fix t assume "t \<in> set ts1"
    then obtain j where j: "j < length ts1" "t = ts1 ! j" by (auto simp: in_set_conv_nth)
    from j(1) len have jl: "j < length ts" by simp
    from map_unsucc_nth [OF u1 jl] have "unsucc (ts1 ! j) = unsucc (ts ! j)" .
    from unsucc_fields [OF this] j(2) have d: "dependencies t = dependencies (ts ! j)" by simp
    from jl have "ts ! j \<in> set ts" by simp
    with Cons.prems(2) have "set (dependencies (ts ! j)) \<subseteq> name ` set ts"
      unfolding resolvedT_def by blast
    with d nm show "set (dependencies t) \<subseteq> name ` set ts1" by simp
  qed
  moreover from Cons.prems(1) len have "\<forall>i\<in>set is. i < length ts1" by simp
  ultimately obtain ts' where "populateAt is ts1 = Inr ts'" using Cons.IH by blast
  with ts1 show ?case by simp
qed

lemma main_Inr:
  "main k g rows = Some (Inr out) \<Longrightarrow>
     \<exists>ts1 ts2 ts3. updateAllEarlyVars k (loadCSV g rows) = Some (Inr ts1) \<and>
       populateSuccessors ts1 = Inr ts2 \<and> updateAllLateVars k ts2 = Some (Inr ts3) \<and>
       out = updateAllSlack ts3"
proof -
  assume run: "main k g rows = Some (Inr out)"
  then obtain ts1 where e: "updateAllEarlyVars k (loadCSV g rows) = Some (Inr ts1)"
    and r1: "(case populateSuccessors ts1 of Inl e \<Rightarrow> Some (Inl e)
       | Inr tasks2 \<Rightarrow> bindR (updateAllLateVars k tasks2)
           (\<lambda>tasks3. Some (Inr (updateAllSlack tasks3)))) = Some (Inr out)"
    unfolding main_def by (auto simp: bindR_eq_Some)
  from r1 obtain ts2 where p: "populateSuccessors ts1 = Inr ts2"
    by (cases "populateSuccessors ts1") auto
  with r1 obtain ts3 where "updateAllLateVars k ts2 = Some (Inr ts3)" "out = updateAllSlack ts3"
    by (auto simp: bindR_eq_Some)
  with e p show ?thesis by blast
qed

lemma static_loadCSV: "map static (loadCSV g rows) = rows"
  by (induction rows) (auto simp: loadCSV_def newTask_def static_def)

lemma successors_loadCSV: "t \<in> set (loadCSV g rows) \<Longrightarrow> successors t = []"
  by (auto simp: loadCSV_def newTask_def)

lemma populateSuccessors_Inr:
  assumes "populateSuccessors ts = Inr ts'"
  shows "map unsucc ts' = map unsucc ts"
    and "j < length ts \<Longrightarrow> set (successors (ts' ! j)) =
        set (successors (ts ! j)) \<union>
        {name (ts ! i) | i. i < length ts \<and>
           (\<exists>d\<in>set (dependencies (ts ! i)). getTaskObjectFromList d ts = Inr j)}"
proof -
  from assms have "populateAt [0..<length ts] ts = Inr ts'" by (simp add: populateSuccessors_def)
  from populateAt_Inr [OF this] have
    *: "map unsucc ts' = map unsucc ts \<and>
     (\<forall>j<length ts. set (successors (ts' ! j)) =
        set (successors (ts ! j)) \<union>
        {name (ts ! i) | i. i \<in> set [0..<length ts] \<and>
           (\<exists>d\<in>set (dependencies (ts ! i)). getTaskObjectFromList d ts = Inr j)})"
    by simp
  from * show "map unsucc ts' = map unsucc ts" by simp
  from * show "j < length ts \<Longrightarrow> set (successors (ts' ! j)) =
        set (successors (ts ! j)) \<union>
        {name (ts ! i) | i. i < length ts \<and>
           (\<exists>d\<in>set (dependencies (ts ! i)). getTaskObjectFromList d ts = Inr j)}"
    by simp
qed

lemma populateSuccessors_succeeds:
  "resolvedT ts \<Longrightarrow> \<exists>ts'. populateSuccessors ts = Inr ts'"
  unfolding populateSuccessors_def by (rule populateAt_succeeds) simp_all

subsection \<open>The run of main, stage by stage\<close>

lemma main_nth:
  assumes run: "main k g rows = Some (Inr out)"
  shows "\<exists>ts1 ts2.
    updateAllEarlyVars k (loadCSV g rows) = Some (Inr ts1) \<and>
    populateSuccessors ts1 = Inr ts2 \<and>
    length out = length rows \<and> length ts1 = length rows \<and> length ts2 = length rows \<and>
    (\<forall>i<length rows.
       \<exists>v w. getEarlyStartScore k (loadCSV g rows ! i) (loadCSV g rows) = Some (Inr v) \<and>
             getLateFinishScore k (ts2 ! i) ts2 = Some (Inr w) \<and>
             ts1 ! i = (loadCSV g rows ! i)\<lparr>ES := v, EF := v + duration (loadCSV g rows ! i)\<rparr> \<and>
             unsucc (ts2 ! i) = unsucc (ts1 ! i) \<and>
             out ! i = (ts2 ! i)\<lparr>LF := w, LS := w - duration (ts2 ! i),
                          slack := w - duration (ts2 ! i) - ES (ts2 ! i)\<rparr>)"
proof -
  let ?ts0 = "loadCSV g rows"
  from main_Inr [OF run] obtain ts1 ts2 ts3 where
    e: "updateAllEarlyVars k ?ts0 = Some (Inr ts1)" and
    p: "populateSuccessors ts1 = Inr ts2" and
    l: "updateAllLateVars k ts2 = Some (Inr ts3)" and
    s: "out = updateAllSlack ts3" by blast
  have l0: "length ?ts0 = length rows" by (simp add: loadCSV_def)
  from updateAllEarlyVars_Inr(1) [OF e] l0 have l1: "length ts1 = length rows" by simp
  from populateSuccessors_Inr(1) [OF p] have u2: "map unsucc ts2 = map unsucc ts1" .
  then have "length ts2 = length ts1" by (metis length_map)
  with l1 have l2: "length ts2 = length rows" by simp
  from updateAllLateVars_Inr(1) [OF l] l2 have l3: "length ts3 = length rows" by simp
  from s l3 have lo: "length out = length rows" by (simp add: updateAllSlack_def)
  have "\<exists>v w. getEarlyStartScore k (?ts0 ! i) ?ts0 = Some (Inr v) \<and>
             getLateFinishScore k (ts2 ! i) ts2 = Some (Inr w) \<and>
             ts1 ! i = (?ts0 ! i)\<lparr>ES := v, EF := v + duration (?ts0 ! i)\<rparr> \<and>
             unsucc (ts2 ! i) = unsucc (ts1 ! i) \<and>
             out ! i = (ts2 ! i)\<lparr>LF := w, LS := w - duration (ts2 ! i),
                          slack := w - duration (ts2 ! i) - ES (ts2 ! i)\<rparr>"
    if i: "i < length rows" for i
  proof -
    from updateAllEarlyVars_Inr(2) [OF e, of i] i l0 obtain v where
      v: "getEarlyStartScore k (?ts0 ! i) ?ts0 = Some (Inr v)"
         "ts1 ! i = (?ts0 ! i)\<lparr>ES := v, EF := v + duration (?ts0 ! i)\<rparr>" by auto
    from updateAllLateVars_Inr(2) [OF l, of i] i l2 obtain w where
      w: "getLateFinishScore k (ts2 ! i) ts2 = Some (Inr w)"
         "ts3 ! i = (ts2 ! i)\<lparr>LF := w, LS := w - duration (ts2 ! i)\<rparr>" by auto
    from i l1 have u: "unsucc (ts2 ! i) = unsucc (ts1 ! i)" by (intro map_unsucc_nth [OF u2]) simp
    from s i l3 w(2) have
      "out ! i = (ts2 ! i)\<lparr>LF := w, LS := w - duration (ts2 ! i),
                          slack := w - duration (ts2 ! i) - ES (ts2 ! i)\<rparr>"
      by (simp add: updateAllSlack_def)
    with v w(1) u show ?thesis by blast
  qed
  with e p lo l1 l2 show ?thesis by blast
qed

subsection \<open>Rows and tasks; more depth never changes a result\<close>

lemma depRel_depEdges: "depRel ts = depEdges (map static ts)"
  by (auto simp: depRel_def depEdges_def static_def)

lemma resolvedT_resolved: "resolvedT ts = resolved (map static ts)"
proof -
  have "fst ` set (map static ts) = name ` set ts" by (force simp: static_def)
  then show ?thesis by (simp add: resolvedT_def resolved_def static_def)
qed

lemma names_static: "map name ts = map fst (map static ts)"
  by (simp add: static_def)

lemma depRel_loadCSV: "depRel (loadCSV g rows) = depEdges rows"
  by (simp add: depRel_depEdges static_loadCSV)

lemma resolvedT_loadCSV: "resolvedT (loadCSV g rows) = resolved rows"
  by (simp add: resolvedT_resolved static_loadCSV)

lemma names_loadCSV: "map name (loadCSV g rows) = map fst rows"
  by (simp add: names_static static_loadCSV)

lemma updateEarlyAt_mono:
  "updateEarlyAt k is ts = Some r \<Longrightarrow> k \<le> k' \<Longrightarrow> updateEarlyAt k' is ts = Some r"
proof (induction "is" arbitrary: ts)
  case Nil
  then show ?case by simp
next
  case (Cons i "is")
  from Cons.prems(1) consider (err) e where
      "getEarlyStartScore k (ts ! i) ts = Some (Inl e)" "r = Inl e"
    | (val) v where "getEarlyStartScore k (ts ! i) ts = Some (Inr v)"
      "updateEarlyAt k is (ts[i := (ts ! i)\<lparr>ES := v, EF := v + duration (ts ! i)\<rparr>]) = Some r"
    by (auto simp: bindR_eq_Some)
  then show ?case
  proof cases
    case err
    from getEarlyStartScore_mono [OF Cons.prems(2) err(1)] err(2) show ?thesis
      by (simp add: bindR_simps)
  next
    case val
    from getEarlyStartScore_mono [OF Cons.prems(2) val(1)] Cons.IH [OF val(2) Cons.prems(2)]
    show ?thesis by (simp add: bindR_simps)
  qed
qed

lemma updateLateAt_mono:
  "updateLateAt k is ts = Some r \<Longrightarrow> k \<le> k' \<Longrightarrow> updateLateAt k' is ts = Some r"
proof (induction "is" arbitrary: ts)
  case Nil
  then show ?case by simp
next
  case (Cons i "is")
  from Cons.prems(1) consider (err) e where
      "getLateFinishScore k (ts ! i) ts = Some (Inl e)" "r = Inl e"
    | (val) v where "getLateFinishScore k (ts ! i) ts = Some (Inr v)"
      "updateLateAt k is (ts[i := (ts ! i)\<lparr>LF := v, LS := v - duration (ts ! i)\<rparr>]) = Some r"
    by (auto simp: bindR_eq_Some)
  then show ?case
  proof cases
    case err
    from getLateFinishScore_mono [OF Cons.prems(2) err(1)] err(2) show ?thesis
      by (simp add: bindR_simps)
  next
    case val
    from getLateFinishScore_mono [OF Cons.prems(2) val(1)] Cons.IH [OF val(2) Cons.prems(2)]
    show ?thesis by (simp add: bindR_simps)
  qed
qed

lemma main_mono:
  assumes "main k g rows = Some r" "k \<le> k'"
  shows "main k' g rows = Some r"
proof -
  from assms(1) consider (err) e where
      "updateAllEarlyVars k (loadCSV g rows) = Some (Inl e)" "r = Inl e"
    | (val) ts1 where "updateAllEarlyVars k (loadCSV g rows) = Some (Inr ts1)"
      "(case populateSuccessors ts1 of Inl e \<Rightarrow> Some (Inl e)
       | Inr tasks2 \<Rightarrow> bindR (updateAllLateVars k tasks2)
           (\<lambda>tasks3. Some (Inr (updateAllSlack tasks3)))) = Some r"
    unfolding main_def by (auto simp: bindR_eq_Some)
  then show ?thesis
  proof cases
    case err
    from updateEarlyAt_mono [OF _ assms(2)] err(1)
    have "updateAllEarlyVars k' (loadCSV g rows) = Some (Inl e)"
      by (simp add: updateAllEarlyVars_def)
    with err(2) show ?thesis by (simp add: main_def bindR_simps)
  next
    case val
    from updateEarlyAt_mono [OF _ assms(2)] val(1)
    have e: "updateAllEarlyVars k' (loadCSV g rows) = Some (Inr ts1)"
      by (simp add: updateAllEarlyVars_def)
    show ?thesis
    proof (cases "populateSuccessors ts1")
      case (Inl e')
      with val(2) e show ?thesis by (auto simp: main_def bindR_simps)
    next
      case (Inr ts2)
      with val(2) have
        b: "bindR (updateAllLateVars k ts2) (\<lambda>tasks3. Some (Inr (updateAllSlack tasks3))) = Some r"
        by simp
      then obtain x where x: "updateAllLateVars k ts2 = Some x"
        by (cases "updateAllLateVars k ts2") (auto simp: bindR_simps)
      from updateLateAt_mono [OF _ assms(2)] x have "updateAllLateVars k' ts2 = Some x"
        by (simp add: updateAllLateVars_def)
      with b x e Inr show ?thesis by (simp add: main_def bindR_simps)
    qed
  qed
qed

lemma getLateFinishScore_resolved:
  "succ_sound ts \<Longrightarrow> t \<in> set ts \<Longrightarrow> getLateFinishScore k t ts \<noteq> Some (Inl e)"
proof
  assume a: "succ_sound ts" "t \<in> set ts" "getLateFinishScore k t ts = Some (Inl e)"
  from getLateFinishScore_Inl [OF a(3)] a(2) obtain m t' where
    m: "m \<notin> name ` set ts" "t' \<in> set ts" "m \<in> set (successors t')" by auto
  with a(1) have "(name t', m) \<in> depRel ts" by (auto simp: succ_sound_def)
  with m(1) show False by (auto simp: depRel_def)
qed

lemma lateFinishLoop_terminates:
  "\<forall>d\<in>set ds. \<forall>p. getTaskFromList d ts = Inr p \<longrightarrow> (\<exists>k. getLateFinishScore k p ts \<noteq> None) \<Longrightarrow>
     \<exists>k. lateFinishLoop (\<lambda>p. getLateFinishScore k p ts) ds ts es \<noteq> None"
proof (induction ds arbitrary: es)
  case Nil
  show ?case by simp
next
  case (Cons d ds)
  show ?case
  proof (cases "getTaskFromList d ts")
    case (Inl e)
    then show ?thesis by simp
  next
    case (Inr p)
    with Cons.prems obtain k1 r1 where k1: "getLateFinishScore k1 p ts = Some r1" by fastforce
    show ?thesis
    proof (cases r1)
      case (Inl e)
      with k1 Inr have
        "lateFinishLoop (\<lambda>p. getLateFinishScore k1 p ts) (d # ds) ts es = Some (Inl e)"
        by (simp add: bindR_simps)
      then show ?thesis by (intro exI [of _ k1]) simp
    next
      case v: (Inr v)
      let ?es = "if v - duration p < es then v - duration p else es"
      from Cons.prems have "\<forall>d\<in>set ds. \<forall>p. getTaskFromList d ts = Inr p \<longrightarrow>
          (\<exists>k. getLateFinishScore k p ts \<noteq> None)" by simp
      from Cons.IH [OF this, of ?es] obtain k2 r2 where
        k2: "lateFinishLoop (\<lambda>p. getLateFinishScore k2 p ts) ds ts ?es = Some r2" by auto
      let ?k = "max k1 k2"
      from k1 v have "getLateFinishScore ?k p ts = Some (Inr v)"
        by (auto intro: getLateFinishScore_mono [of k1])
      moreover from k2 have "lateFinishLoop (\<lambda>p. getLateFinishScore ?k p ts) ds ts ?es = Some r2"
        by (rule lateFinishLoop_mono [rotated]) (auto intro: getLateFinishScore_mono [of k2])
      ultimately have
        "lateFinishLoop (\<lambda>p. getLateFinishScore ?k p ts) (d # ds) ts es = Some r2"
        using Inr by (simp add: bindR_simps Let_def)
      then show ?thesis by (intro exI [of _ ?k]) simp
    qed
  qed
qed

lemma getLateFinishScore_terminates_name:
  assumes "acyclic (depRel ts)" "succ_sound ts"
  shows "\<forall>t\<in>set ts. name t = n \<longrightarrow> (\<exists>k. getLateFinishScore k t ts \<noteq> None)"
  using wf_depRel_converse [OF assms(1)]
proof (induction n rule: wf_induct_rule)
  case (less n)
  show ?case
  proof (intro ballI impI)
    fix t assume t: "t \<in> set ts" "name t = n"
    have "\<forall>d\<in>set (successors t). \<forall>p. getTaskFromList d ts = Inr p \<longrightarrow>
            (\<exists>k. getLateFinishScore k p ts \<noteq> None)"
    proof (intro ballI allI impI)
      fix d p assume d: "d \<in> set (successors t)" and p: "getTaskFromList d ts = Inr p"
      from d t assms(2) have "(n, d) \<in> depRel ts" by (auto simp: succ_sound_def)
      then have "(d, n) \<in> (depRel ts)\<inverse>" by simp
      from less [OF this] getTaskFromList_Inr [OF p]
      show "\<exists>k. getLateFinishScore k p ts \<noteq> None" by blast
    qed
    from lateFinishLoop_terminates [OF this, of INT_MAX] obtain k where
      "lateFinishLoop (\<lambda>p. getLateFinishScore k p ts) (successors t) ts INT_MAX \<noteq> None" by blast
    then have "getLateFinishScore (Suc k) t ts \<noteq> None" by simp
    then show "\<exists>k. getLateFinishScore k t ts \<noteq> None" by blast
  qed
qed

lemma getLateFinishScore_terminates_all:
  assumes "acyclic (depRel ts)" "succ_sound ts"
  shows "set xs \<subseteq> set ts \<Longrightarrow> \<exists>k. \<forall>t\<in>set xs. getLateFinishScore k t ts \<noteq> None"
proof (induction xs)
  case Nil
  show ?case by simp
next
  case (Cons x xs)
  then obtain k1 where k1: "\<forall>t\<in>set xs. getLateFinishScore k1 t ts \<noteq> None" by auto
  from Cons.prems have "x \<in> set ts" by simp
  with getLateFinishScore_terminates_name [OF assms, of "name x"]
  obtain k2 where k2: "getLateFinishScore k2 x ts \<noteq> None" by blast
  have "\<forall>t\<in>set (x # xs). getLateFinishScore (max k1 k2) t ts \<noteq> None"
  proof
    fix t assume "t \<in> set (x # xs)"
    then consider "t = x" | "t \<in> set xs" by auto
    then show "getLateFinishScore (max k1 k2) t ts \<noteq> None"
    proof cases
      case 1
      from k2 obtain r where "getLateFinishScore k2 x ts = Some r" by auto
      then have "getLateFinishScore (max k1 k2) x ts = Some r"
        by (rule getLateFinishScore_mono [rotated]) simp
      with 1 show ?thesis by simp
    next
      case 2
      with k1 obtain r where "getLateFinishScore k1 t ts = Some r" by auto
      then have "getLateFinishScore (max k1 k2) t ts = Some r"
        by (rule getLateFinishScore_mono [rotated]) simp
      then show ?thesis by simp
    qed
  qed
  then show ?case by blast
qed

lemma updateAllLateVars_succeeds:
  assumes "acyclic (depRel ts)" "succ_sound ts"
  shows "\<exists>k ts'. updateAllLateVars k ts = Some (Inr ts')"
proof -
  from getLateFinishScore_terminates_all [OF assms, of ts] obtain k where
    k: "\<forall>t\<in>set ts. getLateFinishScore k t ts \<noteq> None" by auto
  with updateAllLateVars_None [of k ts] obtain r where r: "updateAllLateVars k ts = Some r"
    by blast
  show ?thesis
  proof (cases r)
    case (Inl e)
    with r updateAllLateVars_Inl obtain t where
      "t \<in> set ts" "getLateFinishScore k t ts = Some (Inl e)" by blast
    with getLateFinishScore_resolved [OF assms(2)] show ?thesis by blast
  next
    case (Inr ts')
    with r show ?thesis by blast
  qed
qed

subsection \<open>Termination of main; the output task by task\<close>

lemma updateAllEarlyVars_static:
  assumes "updateAllEarlyVars k ts = Some (Inr ts')"
  shows "map static ts' = map static ts" and "map successors ts' = map successors ts"
proof -
  note len = updateAllEarlyVars_Inr(1) [OF assms]
  have nth: "static (ts' ! i) = static (ts ! i) \<and> successors (ts' ! i) = successors (ts ! i)"
    if "i < length ts" for i
    using updateAllEarlyVars_Inr(2) [OF assms that] by (auto simp: static_def)
  from len nth show "map static ts' = map static ts"
    by (intro nth_equalityI) simp_all
  from len nth show "map successors ts' = map successors ts"
    by (intro nth_equalityI) simp_all
qed

lemma map_unsucc_static: "map unsucc ts' = map unsucc ts \<Longrightarrow> map static ts' = map static ts"
proof -
  assume a: "map unsucc ts' = map unsucc ts"
  then have len: "length ts' = length ts" by (metis length_map)
  have "static (ts' ! i) = static (ts ! i)" if "i < length ts" for i
    using unsucc_fields [OF map_unsucc_nth [OF a that]] by (simp add: static_def)
  with len show ?thesis by (intro nth_equalityI) simp_all
qed

lemma populateSuccessors_succ_sound:
  assumes p: "populateSuccessors ts = Inr ts'" and e: "\<forall>t\<in>set ts. successors t = []"
  shows "succ_sound ts'"
  unfolding succ_sound_def
proof (intro ballI)
  fix t s assume t: "t \<in> set ts'" and s: "s \<in> set (successors t)"
  note u = populateSuccessors_Inr(1) [OF p]
  then have len: "length ts' = length ts" by (metis length_map)
  from t obtain j where j: "j < length ts'" "t = ts' ! j" by (auto simp: in_set_conv_nth)
  with len have jl: "j < length ts" by simp
  from e jl have "successors (ts ! j) = []" by simp
  with populateSuccessors_Inr(2) [OF p jl] s j(2) obtain i d where
    i: "i < length ts" "s = name (ts ! i)" "d \<in> set (dependencies (ts ! i))"
       "getTaskObjectFromList d ts = Inr j" by auto
  from getTaskObjectFromList_Inr [OF i(4)] have "name (ts ! j) = d" by simp
  moreover from unsucc_fields [OF map_unsucc_nth [OF u jl]] j(2) have "name t = name (ts ! j)"
    by simp
  ultimately have "(name t, s) \<in> depRel ts"
    using i by (auto simp: depRel_def intro!: bexI [of _ "ts ! i"])
  also have "depRel ts = depRel ts'"
    by (simp add: depRel_depEdges map_unsucc_static [OF u])
  finally show "(name t, s) \<in> depRel ts'" .
qed

lemma main_terminates:
  assumes "resolved rows" "acyclic (depEdges rows)"
  shows "\<exists>k out. main k g rows = Some (Inr out)"
proof -
  let ?ts0 = "loadCSV g rows"
  from assms have a0: "acyclic (depRel ?ts0)" and r0: "resolvedT ?ts0"
    by (simp_all add: depRel_loadCSV resolvedT_loadCSV)
  from updateAllEarlyVars_succeeds [OF a0 r0] obtain k1 ts1 where
    e: "updateAllEarlyVars k1 ?ts0 = Some (Inr ts1)" by blast
  note st1 = updateAllEarlyVars_static [OF e]
  from st1(1) r0 have r1: "resolvedT ts1" by (simp add: resolvedT_resolved)
  from populateSuccessors_succeeds [OF r1] obtain ts2 where
    p: "populateSuccessors ts1 = Inr ts2" by blast
  have "\<forall>t\<in>set ts1. successors t = []"
  proof
    fix t assume "t \<in> set ts1"
    then have "successors t \<in> set (map successors ts1)" by simp
    with st1(2) have "successors t \<in> successors ` set ?ts0" by simp
    then show "successors t = []" by (auto dest: successors_loadCSV)
  qed
  from populateSuccessors_succ_sound [OF p this] have ss: "succ_sound ts2" .
  from populateSuccessors_Inr(1) [OF p] have "map static ts2 = map static ts1"
    by (rule map_unsucc_static)
  with st1(1) a0 have a2: "acyclic (depRel ts2)" by (simp add: depRel_depEdges)
  from updateAllLateVars_succeeds [OF a2 ss] obtain k2 ts3 where
    l: "updateAllLateVars k2 ts2 = Some (Inr ts3)" by blast
  let ?k = "max k1 k2"
  from updateEarlyAt_mono [of k1 _ ?ts0 _ ?k] e
  have e': "updateAllEarlyVars ?k ?ts0 = Some (Inr ts1)" by (simp add: updateAllEarlyVars_def)
  from updateLateAt_mono [of k2 _ ts2 _ ?k] l
  have l': "updateAllLateVars ?k ts2 = Some (Inr ts3)" by (simp add: updateAllLateVars_def)
  from e' p l' have "main ?k g rows = Some (Inr (updateAllSlack ts3))"
    by (simp add: main_def bindR_simps)
  then show ?thesis by blast
qed

lemma main_static:
  assumes "main k g rows = Some (Inr out)"
  shows "map static out = rows"
proof -
  from main_nth [OF assms] obtain ts1 ts2 where
    len: "length out = length rows" "length ts1 = length rows" "length ts2 = length rows" and
    nth': "\<forall>i<length rows.
       \<exists>v w. getEarlyStartScore k (loadCSV g rows ! i) (loadCSV g rows) = Some (Inr v) \<and>
             getLateFinishScore k (ts2 ! i) ts2 = Some (Inr w) \<and>
             ts1 ! i = (loadCSV g rows ! i)\<lparr>ES := v, EF := v + duration (loadCSV g rows ! i)\<rparr> \<and>
             unsucc (ts2 ! i) = unsucc (ts1 ! i) \<and>
             out ! i = (ts2 ! i)\<lparr>LF := w, LS := w - duration (ts2 ! i),
                          slack := w - duration (ts2 ! i) - ES (ts2 ! i)\<rparr>"
    by blast
  note nth = nth' [rule_format]
  have "static (out ! i) = static (loadCSV g rows ! i)" if i: "i < length rows" for i
  proof -
    from nth [OF i] obtain v w where
      f: "ts1 ! i = (loadCSV g rows ! i)\<lparr>ES := v, EF := v + duration (loadCSV g rows ! i)\<rparr>"
         "unsucc (ts2 ! i) = unsucc (ts1 ! i)"
         "out ! i = (ts2 ! i)\<lparr>LF := w, LS := w - duration (ts2 ! i),
                          slack := w - duration (ts2 ! i) - ES (ts2 ! i)\<rparr>" by blast
    from unsucc_fields [OF f(2)] f(1) f(3) show ?thesis by (simp add: static_def)
  qed
  with len have "map static out = map static (loadCSV g rows)"
    by (intro nth_equalityI) (simp_all add: loadCSV_def)
  then show ?thesis by (simp add: static_loadCSV)
qed

lemma main_timing:
  assumes "main k g rows = Some (Inr out)" "t \<in> set out"
  shows "getEarlyStartScore k t out = Some (Inr (ES t))"
    and "EF t = ES t + duration t"
    and "getLateFinishScore k t out = Some (Inr (LF t))"
    and "LS t = LF t - duration t"
    and "slack t = LS t - ES t"
proof -
  let ?ts0 = "loadCSV g rows"
  from main_nth [OF assms(1)] obtain ts1 ts2 where
    len: "length out = length rows" "length ts1 = length rows" "length ts2 = length rows" and
    nth': "\<forall>i<length rows.
       \<exists>v w. getEarlyStartScore k (?ts0 ! i) ?ts0 = Some (Inr v) \<and>
             getLateFinishScore k (ts2 ! i) ts2 = Some (Inr w) \<and>
             ts1 ! i = (?ts0 ! i)\<lparr>ES := v, EF := v + duration (?ts0 ! i)\<rparr> \<and>
             unsucc (ts2 ! i) = unsucc (ts1 ! i) \<and>
             out ! i = (ts2 ! i)\<lparr>LF := w, LS := w - duration (ts2 ! i),
                          slack := w - duration (ts2 ! i) - ES (ts2 ! i)\<rparr>"
    by blast
  note nth = nth' [rule_format]
  have st: "map static out = map static ?ts0"
    by (simp add: main_static [OF assms(1)] static_loadCSV)
  have lnth: "lstatic (out ! i) = lstatic (ts2 ! i)" if i: "i < length rows" for i
  proof -
    from nth [OF i] obtain v w where
         "out ! i = (ts2 ! i)\<lparr>LF := w, LS := w - duration (ts2 ! i),
                          slack := w - duration (ts2 ! i) - ES (ts2 ! i)\<rparr>" by blast
    then show ?thesis by (simp add: lstatic_def)
  qed
  with len have lst: "map lstatic out = map lstatic ts2"
    by (intro nth_equalityI) simp_all
  from assms(2) len obtain i where i: "i < length rows" "t = out ! i"
    by (auto simp: in_set_conv_nth)
  from nth [OF i(1)] obtain v w where
    f: "getEarlyStartScore k (?ts0 ! i) ?ts0 = Some (Inr v)"
       "getLateFinishScore k (ts2 ! i) ts2 = Some (Inr w)"
       "ts1 ! i = (?ts0 ! i)\<lparr>ES := v, EF := v + duration (?ts0 ! i)\<rparr>"
       "unsucc (ts2 ! i) = unsucc (ts1 ! i)"
       "out ! i = (ts2 ! i)\<lparr>LF := w, LS := w - duration (ts2 ! i),
                          slack := w - duration (ts2 ! i) - ES (ts2 ! i)\<rparr>" by blast
  note u = unsucc_fields [OF f(4)]
  from u f(3) f(5) i(2) have es: "ES t = v" "EF t = v + duration t" "LF t = w"
    "LS t = w - duration t" "slack t = w - duration t - v"
    by simp_all
  from i len have "static t = static (?ts0 ! i)"
    using st by (metis length_map nth_map)
  with st have "getEarlyStartScore k t out = getEarlyStartScore k (?ts0 ! i) ?ts0"
    by (intro getEarlyStartScore_static)
  with f(1) es(1) show "getEarlyStartScore k t out = Some (Inr (ES t))" by simp
  from lnth [OF i(1)] i(2) lst
  have "getLateFinishScore k t out = getLateFinishScore k (ts2 ! i) ts2"
    by (intro getLateFinishScore_lstatic) simp_all
  with f(2) es(3) show "getLateFinishScore k t out = Some (Inr (LF t))" by simp
  from es show "EF t = ES t + duration t" "LS t = LF t - duration t" "slack t = LS t - ES t"
    by simp_all
qed

subsection \<open>Inputs without a schedule: missing names and cycles\<close>

lemma getEarlyStartScore_Inr_resolved:
  assumes "getEarlyStartScore k t ts = Some (Inr v)"
  shows "set (dependencies t) \<subseteq> name ` set ts"
proof (cases k)
  case 0
  with assms show ?thesis by simp
next
  case (Suc k')
  show ?thesis
  proof (cases "dependencies t = []")
    case True
    then show ?thesis by simp
  next
    case False
    with assms Suc have
      "earlyStartLoop (\<lambda>p. getEarlyStartScore k' p ts) (dependencies t) ts 0 = Some (Inr v)"
      by simp
    from earlyStartLoop_Inr [OF this] show ?thesis
      by (auto dest!: getTaskFromList_Inr)
  qed
qed

lemma updateAllEarlyVars_Inr_resolved:
  assumes "updateAllEarlyVars k ts = Some (Inr ts')"
  shows "resolvedT ts"
  unfolding resolvedT_def
proof
  fix t assume "t \<in> set ts"
  then obtain i where "i < length ts" "t = ts ! i" by (auto simp: in_set_conv_nth)
  with updateAllEarlyVars_Inr(2) [OF assms, of i] obtain v where
    "getEarlyStartScore k t ts = Some (Inr v)" by auto
  then show "set (dependencies t) \<subseteq> name ` set ts" by (rule getEarlyStartScore_Inr_resolved)
qed

lemma main_eq_forward_failure:
  assumes "\<forall>ts1. updateAllEarlyVars k (loadCSV g rows) \<noteq> Some (Inr ts1)"
  shows "main k g rows = None \<and> updateAllEarlyVars k (loadCSV g rows) = None \<or>
         (\<exists>e. main k g rows = Some (Inl e) \<and> updateAllEarlyVars k (loadCSV g rows) = Some (Inl e))"
proof (cases "updateAllEarlyVars k (loadCSV g rows)")
  case None
  then show ?thesis by (simp add: main_def bindR_simps)
next
  case (Some x)
  with assms obtain e where "x = Inl e" by (cases x) auto
  with Some show ?thesis by (simp add: main_def bindR_simps)
qed

lemma on_cycle_step:
  assumes "(n, n) \<in> r\<^sup>+"
  shows "\<exists>d. (d, n) \<in> r \<and> (d, d) \<in> r\<^sup>+"
proof -
  from tranclD2 [OF assms] obtain d where d: "(n, d) \<in> r\<^sup>*" "(d, n) \<in> r" by blast
  from d(2) d(1) have "(d, d) \<in> r\<^sup>+" by (rule rtrancl_into_trancl2)
  with d(2) show ?thesis by blast
qed

lemma distinct_names_eq:
  "distinct (map name ts) \<Longrightarrow> t \<in> set ts \<Longrightarrow> u \<in> set ts \<Longrightarrow> name t = name u \<Longrightarrow> t = u"
  by (auto simp: distinct_map dest: inj_onD)

lemma getEarlyStartScore_on_cycle:
  assumes d: "distinct (map name ts)"
  shows "t \<in> set ts \<Longrightarrow> (name t, name t) \<in> (depRel ts)\<^sup>+ \<Longrightarrow>
           getEarlyStartScore k t ts \<noteq> Some (Inr v)"
proof (induction k arbitrary: t v)
  case 0
  show ?case by simp
next
  case (Suc k)
  from on_cycle_step [OF Suc.prems(2)] obtain dn where
    dn: "(dn, name t) \<in> depRel ts" "(dn, dn) \<in> (depRel ts)\<^sup>+" by blast
  from dn(1) obtain u where u: "u \<in> set ts" "name u = name t" "dn \<in> set (dependencies u)"
    by (auto simp: depRel_def)
  from distinct_names_eq [OF d u(1) Suc.prems(1) u(2)] u(3) have dt: "dn \<in> set (dependencies t)"
    by simp
  show ?case
  proof
    assume "getEarlyStartScore (Suc k) t ts = Some (Inr v)"
    with dt have
      "earlyStartLoop (\<lambda>p. getEarlyStartScore k p ts) (dependencies t) ts 0 = Some (Inr v)"
      by (auto split: if_splits)
    from earlyStartLoop_Inr [OF this] dt obtain p s where
      p: "getTaskFromList dn ts = Inr p" "getEarlyStartScore k p ts = Some (Inr s)" by blast
    from getTaskFromList_Inr [OF p(1)] dn(2) Suc.IH [of p s] p(2) show False by auto
  qed
qed

lemma not_acyclic_task:
  assumes "\<not> acyclic (depRel ts)"
  shows "\<exists>t\<in>set ts. (name t, name t) \<in> (depRel ts)\<^sup>+"
proof -
  from assms obtain n where n: "(n, n) \<in> (depRel ts)\<^sup>+" by (auto simp: acyclic_def)
  from on_cycle_step [OF n] obtain d where "(d, n) \<in> depRel ts" by blast
  then obtain t where "t \<in> set ts" "name t = n" by (auto simp: depRel_def)
  with n show ?thesis by blast
qed

lemma forward_pass_on_cycle:
  assumes "distinct (map fst rows)" "\<not> acyclic (depEdges rows)"
  shows "updateAllEarlyVars k (loadCSV g rows) \<noteq> Some (Inr ts1)"
proof
  let ?ts0 = "loadCSV g rows"
  assume e: "updateAllEarlyVars k ?ts0 = Some (Inr ts1)"
  from assms have d: "distinct (map name ?ts0)" and c: "\<not> acyclic (depRel ?ts0)"
    by (simp_all add: names_loadCSV depRel_loadCSV)
  from not_acyclic_task [OF c] obtain t where
    t: "t \<in> set ?ts0" "(name t, name t) \<in> (depRel ?ts0)\<^sup>+" by blast
  from t(1) obtain i where "i < length ?ts0" "t = ?ts0 ! i" by (auto simp: in_set_conv_nth)
  with updateAllEarlyVars_Inr(2) [OF e, of i] obtain v where
    "getEarlyStartScore k t ?ts0 = Some (Inr v)" by auto
  with getEarlyStartScore_on_cycle [OF d t] show False by blast
qed

lemma two_cycle_calls:
  "getEarlyStartScore k (loadCSV zeroTask two_cycle ! 0) (loadCSV zeroTask two_cycle) = None \<and>
   getEarlyStartScore k (loadCSV zeroTask two_cycle ! 1) (loadCSV zeroTask two_cycle) = None"
  by (induction k) (simp_all add: two_cycle_def loadCSV_def newTask_def zeroTask_def bindR_simps)

lemma loop_then_missing_calls:
  "getEarlyStartScore k (loadCSV zeroTask loop_then_missing ! 0) (loadCSV zeroTask loop_then_missing)
     = None"
  by (induction k)
     (simp_all add: loop_then_missing_def loadCSV_def newTask_def zeroTask_def bindR_simps)

subsection \<open>The output satisfies the recurrences of the two passes\<close>

lemma getTaskFromList_index:
  "getTaskFromList n ts = Inr p \<Longrightarrow> \<exists>j. getTaskObjectFromList n ts = Inr j \<and> p = ts ! j"
  by (induction ts) (auto split: if_splits)

lemma main_early_facts:
  assumes run: "main k g rows = Some (Inr out)" and t: "t \<in> set out"
  shows "0 \<le> ES t"
    and "\<forall>d\<in>set (dependencies t). \<exists>p. getTaskFromList d out = Inr p \<and> EF p \<le> ES t"
    and "ES t = 0 \<or> (\<exists>d\<in>set (dependencies t). \<exists>p. getTaskFromList d out = Inr p \<and> ES t = EF p)"
proof -
  note es = main_timing(1) [OF run t]
  then obtain k' where k: "k = Suc k'" by (cases k) auto
  have "0 \<le> ES t \<and>
    (\<forall>d\<in>set (dependencies t). \<exists>p. getTaskFromList d out = Inr p \<and> EF p \<le> ES t) \<and>
    (ES t = 0 \<or> (\<exists>d\<in>set (dependencies t). \<exists>p. getTaskFromList d out = Inr p \<and> ES t = EF p))"
  proof (cases "dependencies t = []")
    case True
    with es k show ?thesis by simp
  next
    case False
    with es k have
      l: "earlyStartLoop (\<lambda>p. getEarlyStartScore k' p out) (dependencies t) out 0 = Some (Inr (ES t))"
      by simp
    have val: "s + duration p = EF p"
      if "getTaskFromList d out = Inr p" "getEarlyStartScore k' p out = Some (Inr s)" for d p s
    proof -
      from getTaskFromList_Inr [OF that(1)] have p: "p \<in> set out" by simp
      from getEarlyStartScore_mono [OF _ that(2), of k] k
      have "getEarlyStartScore k p out = Some (Inr s)" by simp
      with main_timing(1) [OF run p] have "s = ES p" by simp
      with main_timing(2) [OF run p] show ?thesis by simp
    qed
    from earlyStartLoop_Inr [OF l] have
      a: "0 \<le> ES t" and
      b: "\<forall>d\<in>set (dependencies t). \<exists>p s. getTaskFromList d out = Inr p \<and>
           getEarlyStartScore k' p out = Some (Inr s) \<and> s + duration p \<le> ES t" and
      c: "ES t = 0 \<or> (\<exists>d\<in>set (dependencies t). \<exists>p s. getTaskFromList d out = Inr p \<and>
           getEarlyStartScore k' p out = Some (Inr s) \<and> ES t = s + duration p)"
      by simp_all
    from b val have b': "\<forall>d\<in>set (dependencies t). \<exists>p. getTaskFromList d out = Inr p \<and> EF p \<le> ES t"
      by metis
    from c val have
      c': "ES t = 0 \<or> (\<exists>d\<in>set (dependencies t). \<exists>p. getTaskFromList d out = Inr p \<and> ES t = EF p)"
      by metis
    from a b' c' show ?thesis by blast
  qed
  then show "0 \<le> ES t"
    and "\<forall>d\<in>set (dependencies t). \<exists>p. getTaskFromList d out = Inr p \<and> EF p \<le> ES t"
    and "ES t = 0 \<or> (\<exists>d\<in>set (dependencies t). \<exists>p. getTaskFromList d out = Inr p \<and> ES t = EF p)"
    by blast+
qed

lemma main_late_facts:
  assumes run: "main k g rows = Some (Inr out)" and t: "t \<in> set out"
  shows "successors t = [] \<Longrightarrow> LF t = EF t"
    and "LF t \<le> INT_MAX \<or> successors t = []"
    and "\<forall>s\<in>set (successors t). \<exists>q. getTaskFromList s out = Inr q \<and> LF t \<le> LS q"
    and "successors t = [] \<or> LF t = INT_MAX \<or>
         (\<exists>s\<in>set (successors t). \<exists>q. getTaskFromList s out = Inr q \<and> LF t = LS q)"
proof -
  note lf = main_timing(3) [OF run t]
  then obtain k' where k: "k = Suc k'" by (cases k) auto
  have "(successors t = [] \<longrightarrow> LF t = EF t) \<and> (LF t \<le> INT_MAX \<or> successors t = []) \<and>
    (\<forall>s\<in>set (successors t). \<exists>q. getTaskFromList s out = Inr q \<and> LF t \<le> LS q) \<and>
    (successors t = [] \<or> LF t = INT_MAX \<or>
         (\<exists>s\<in>set (successors t). \<exists>q. getTaskFromList s out = Inr q \<and> LF t = LS q))"
  proof (cases "successors t = []")
    case True
    with lf k show ?thesis by simp
  next
    case False
    with lf k have
      l: "lateFinishLoop (\<lambda>p. getLateFinishScore k' p out) (successors t) out INT_MAX
            = Some (Inr (LF t))"
      by simp
    have val: "s - duration q = LS q"
      if "getTaskFromList d out = Inr q" "getLateFinishScore k' q out = Some (Inr s)" for d q s
    proof -
      from getTaskFromList_Inr [OF that(1)] have q: "q \<in> set out" by simp
      from getLateFinishScore_mono [OF _ that(2), of k] k
      have "getLateFinishScore k q out = Some (Inr s)" by simp
      with main_timing(3) [OF run q] have "s = LF q" by simp
      with main_timing(4) [OF run q] show ?thesis by simp
    qed
    from lateFinishLoop_Inr [OF l] have
      a: "LF t \<le> INT_MAX" and
      b: "\<forall>d\<in>set (successors t). \<exists>p s. getTaskFromList d out = Inr p \<and>
           getLateFinishScore k' p out = Some (Inr s) \<and> LF t \<le> s - duration p" and
      c: "LF t = INT_MAX \<or> (\<exists>d\<in>set (successors t). \<exists>p s. getTaskFromList d out = Inr p \<and>
           getLateFinishScore k' p out = Some (Inr s) \<and> LF t = s - duration p)"
      by simp_all
    from b val have b': "\<forall>s\<in>set (successors t). \<exists>q. getTaskFromList s out = Inr q \<and> LF t \<le> LS q"
      by metis
    from c val have
      c': "LF t = INT_MAX \<or>
         (\<exists>s\<in>set (successors t). \<exists>q. getTaskFromList s out = Inr q \<and> LF t = LS q)"
      by metis
    from a b' c' False show ?thesis by blast
  qed
  then show "successors t = [] \<Longrightarrow> LF t = EF t"
    and "LF t \<le> INT_MAX \<or> successors t = []"
    and "\<forall>s\<in>set (successors t). \<exists>q. getTaskFromList s out = Inr q \<and> LF t \<le> LS q"
    and "successors t = [] \<or> LF t = INT_MAX \<or>
         (\<exists>s\<in>set (successors t). \<exists>q. getTaskFromList s out = Inr q \<and> LF t = LS q)"
    by blast+
qed

lemma main_successors:
  assumes run: "main k g rows = Some (Inr out)" and j: "j < length out"
  shows "set (successors (out ! j)) =
    {name (out ! i) | i. i < length out \<and>
       (\<exists>d\<in>set (dependencies (out ! i)). getTaskObjectFromList d out = Inr j)}"
proof -
  let ?ts0 = "loadCSV g rows"
  from main_nth [OF run] obtain ts1 ts2 where
    e: "updateAllEarlyVars k ?ts0 = Some (Inr ts1)" and p: "populateSuccessors ts1 = Inr ts2" and
    len: "length out = length rows" "length ts1 = length rows" "length ts2 = length rows" and
    nth': "\<forall>i<length rows.
       \<exists>v w. getEarlyStartScore k (?ts0 ! i) ?ts0 = Some (Inr v) \<and>
             getLateFinishScore k (ts2 ! i) ts2 = Some (Inr w) \<and>
             ts1 ! i = (?ts0 ! i)\<lparr>ES := v, EF := v + duration (?ts0 ! i)\<rparr> \<and>
             unsucc (ts2 ! i) = unsucc (ts1 ! i) \<and>
             out ! i = (ts2 ! i)\<lparr>LF := w, LS := w - duration (ts2 ! i),
                          slack := w - duration (ts2 ! i) - ES (ts2 ! i)\<rparr>"
    by blast
  note nth = nth' [rule_format]
  have l0: "length ?ts0 = length rows" by (simp add: loadCSV_def)
  have f: "successors (ts1 ! i) = [] \<and> name (out ! i) = name (ts1 ! i) \<and>
           dependencies (out ! i) = dependencies (ts1 ! i) \<and>
           successors (out ! i) = successors (ts2 ! i)" if i: "i < length rows" for i
  proof -
    from nth [OF i] obtain v w where
      x: "ts1 ! i = (?ts0 ! i)\<lparr>ES := v, EF := v + duration (?ts0 ! i)\<rparr>"
         "unsucc (ts2 ! i) = unsucc (ts1 ! i)"
         "out ! i = (ts2 ! i)\<lparr>LF := w, LS := w - duration (ts2 ! i),
                          slack := w - duration (ts2 ! i) - ES (ts2 ! i)\<rparr>" by blast
    from i l0 have "?ts0 ! i \<in> set ?ts0" by simp
    then have "successors (?ts0 ! i) = []" by (rule successors_loadCSV)
    with x(1) unsucc_fields [OF x(2)] x(3) show ?thesis by simp
  qed
  have "map name out = map name ts1"
    using len f by (intro nth_equalityI) simp_all
  then have look: "getTaskObjectFromList d out = getTaskObjectFromList d ts1" for d
    by (rule getTaskObjectFromList_names)
  from j len have j1: "j < length ts1" by simp
  from populateSuccessors_Inr(2) [OF p j1] f [of j] j len have
    "set (successors (out ! j)) =
      {name (ts1 ! i) | i. i < length ts1 \<and>
         (\<exists>d\<in>set (dependencies (ts1 ! i)). getTaskObjectFromList d ts1 = Inr j)}"
    by simp
  also have "\<dots> = {name (out ! i) | i. i < length out \<and>
       (\<exists>d\<in>set (dependencies (out ! i)). getTaskObjectFromList d out = Inr j)}"
  proof -
    have g: "i < length rows \<Longrightarrow> name (ts1 ! i) = name (out ! i) \<and>
           dependencies (ts1 ! i) = dependencies (out ! i)" for i
      using f [of i] by simp
    show ?thesis
      unfolding len look
      by (intro Collect_cong ex_cong1 iffI) (use g in auto)
  qed
  finally show ?thesis .
qed

lemma main_successor_is_dependent:
  assumes run: "main k g rows = Some (Inr out)" and t: "t \<in> set out"
    and s: "s \<in> set (successors t)"
  shows "\<exists>u\<in>set out. name u = s \<and> name t \<in> set (dependencies u)"
proof -
  from t obtain j where j: "j < length out" "t = out ! j" by (auto simp: in_set_conv_nth)
  from main_successors [OF run j(1)] s j(2) obtain i d where
    i: "i < length out" "s = name (out ! i)" "d \<in> set (dependencies (out ! i))"
       "getTaskObjectFromList d out = Inr j" by auto
  from getTaskObjectFromList_Inr [OF i(4)] j(2) have "name t = d" by simp
  with i show ?thesis by (intro bexI [of _ "out ! i"]) simp_all
qed

lemma main_dependency_has_successor:
  assumes run: "main k g rows = Some (Inr out)" and u: "u \<in> set out"
    and d: "d \<in> set (dependencies u)" and p: "getTaskFromList d out = Inr p"
  shows "name u \<in> set (successors p)"
proof -
  from getTaskFromList_index [OF p] obtain j where
    j: "getTaskObjectFromList d out = Inr j" "p = out ! j" by blast
  from getTaskObjectFromList_Inr [OF j(1)] have jl: "j < length out" by simp
  from u obtain i where i: "i < length out" "u = out ! i" by (auto simp: in_set_conv_nth)
  from main_successors [OF run jl] i d j show ?thesis by auto
qed

subsection \<open>The output of main on a valid DAG input\<close>

lemma main_schedule_ok:
  assumes run: "main k g rows = Some (Inr out)" and v: "valid_dag rows"
  shows "schedule_ok out"
proof -
  note st = main_static [OF run]
  from v st have d: "distinct (map name out)" by (simp add: valid_dag_def names_static)
  from v st have a: "acyclic (depRel out)" by (simp add: valid_dag_def depRel_depEdges)
  have self: "getTaskFromList (name t) out = Inr t" if "t \<in> set out" for t
    using getTaskFromList_distinct [OF d that] .
  have uniq: "p = q" if "getTaskFromList n out = Inr p" "q \<in> set out" "name q = n" for n p q
    using self [OF that(2)] that by simp
  have "EF t = ES t + duration t \<and> LS t = LF t - duration t \<and> slack t = LS t - ES t \<and>
         0 \<le> ES t \<and>
         (\<forall>d\<in>set (dependencies t). \<exists>p\<in>set out. name p = d) \<and>
         (\<forall>p\<in>set out. name p \<in> set (dependencies t) \<longrightarrow>
            EF p \<le> ES t \<and> LF p \<le> LS t \<and> name t \<in> set (successors p)) \<and>
         (ES t = 0 \<or> (\<exists>p\<in>set out. name p \<in> set (dependencies t) \<and> ES t = EF p)) \<and>
         (\<forall>s\<in>set (successors t). \<exists>q\<in>set out. name q = s \<and> name t \<in> set (dependencies q)) \<and>
         (successors t = [] \<longrightarrow> LF t = EF t) \<and>
         (successors t = [] \<or> LF t = INT_MAX \<or>
            (\<exists>q\<in>set out. name t \<in> set (dependencies q) \<and> LF t = LS q))"
    if t: "t \<in> set out" for t
  proof -
    note tm = main_timing [OF run t]
    note ef = main_early_facts [OF run t]
    note lf = main_late_facts [OF run t]
    have 1: "EF p \<le> ES t \<and> LF p \<le> LS t \<and> name t \<in> set (successors p)"
      if p: "p \<in> set out" "name p \<in> set (dependencies t)" for p
    proof -
      from ef(2) p(2) obtain p' where p': "getTaskFromList (name p) out = Inr p'" "EF p' \<le> ES t"
        by blast
      from uniq [OF p'(1) p(1)] have pp: "p' = p" by simp
      from main_dependency_has_successor [OF run t p(2)] p'(1) pp
      have su: "name t \<in> set (successors p)" by simp
      from main_late_facts(3) [OF run p(1)] su obtain q where
        q: "getTaskFromList (name t) out = Inr q" "LF p \<le> LS q" by blast
      from uniq [OF q(1) t] q(2) have "LF p \<le> LS t" by simp
      with p'(2) pp su show ?thesis by simp
    qed
    have 0: "\<forall>d\<in>set (dependencies t). \<exists>p\<in>set out. name p = d"
      using ef(2) by (auto dest!: getTaskFromList_Inr)
    have 2: "ES t = 0 \<or> (\<exists>p\<in>set out. name p \<in> set (dependencies t) \<and> ES t = EF p)"
      using ef(3) by (auto dest: getTaskFromList_Inr)
    have 3: "\<exists>q\<in>set out. name q = s \<and> name t \<in> set (dependencies q)"
      if "s \<in> set (successors t)" for s
      using main_successor_is_dependent [OF run t that] .
    have 4: "successors t = [] \<or> LF t = INT_MAX \<or>
            (\<exists>q\<in>set out. name t \<in> set (dependencies q) \<and> LF t = LS q)"
    proof -
      from lf(4) consider "successors t = []" | "LF t = INT_MAX"
        | s q where "s \<in> set (successors t)" "getTaskFromList s out = Inr q" "LF t = LS q"
        by blast
      then show ?thesis
      proof cases
        case 3
        from 3(2) have q: "q \<in> set out" "name q = s" by (auto dest: getTaskFromList_Inr)
        from main_successor_is_dependent [OF run t 3(1)] obtain u where
          u: "u \<in> set out" "name u = s" "name t \<in> set (dependencies u)" by blast
        from uniq [OF 3(2) u(1) u(2)] u(3) have "name t \<in> set (dependencies q)" by simp
        with q(1) 3(3) show ?thesis by blast
      qed simp_all
    qed
    from tm(2,4,5) ef(1) 0 1 2 3 lf(1) 4 show ?thesis by blast
  qed
  with d a show ?thesis unfolding schedule_ok_def by blast
qed

subsection \<open>Consequences of the recurrences on an acyclic graph\<close>

lemma schedule_okD:
  assumes "schedule_ok out" "t \<in> set out"
  shows "EF t = ES t + duration t" "LS t = LF t - duration t" "slack t = LS t - ES t"
    "0 \<le> ES t"
    "\<And>p. p \<in> set out \<Longrightarrow> name p \<in> set (dependencies t) \<Longrightarrow>
       EF p \<le> ES t \<and> LF p \<le> LS t \<and> name t \<in> set (successors p)"
    "ES t = 0 \<or> (\<exists>p\<in>set out. name p \<in> set (dependencies t) \<and> ES t = EF p)"
    "\<And>s. s \<in> set (successors t) \<Longrightarrow> \<exists>q\<in>set out. name q = s \<and> name t \<in> set (dependencies q)"
    "successors t = [] \<Longrightarrow> LF t = EF t"
    "successors t = [] \<or> LF t = INT_MAX \<or>
       (\<exists>q\<in>set out. name t \<in> set (dependencies q) \<and> LF t = LS q)"
    "\<And>d. d \<in> set (dependencies t) \<Longrightarrow> \<exists>p\<in>set out. name p = d"
  using assms unfolding schedule_ok_def by blast+

lemma schedule_ok_edge:
  assumes "schedule_ok out" "p \<in> set out" "t \<in> set out" "name p \<in> set (dependencies t)"
  shows "(name p, name t) \<in> depRel out"
  using assms by (auto simp: depRel_def)

lemma schedule_ok_wf:
  assumes "schedule_ok out"
  shows "wf (depRel out)" "wf ((depRel out)\<inverse>)"
  using assms wf_depRel wf_depRel_converse unfolding schedule_ok_def by blast+

text \<open>A task that is not the last of its chain has a successor task.\<close>

lemma schedule_ok_successor:
  assumes ok: "schedule_ok out" and t: "t \<in> set out" and ne: "successors t \<noteq> []"
  shows "\<exists>q\<in>set out. name t \<in> set (dependencies q)"
proof -
  from ne obtain s where "s \<in> set (successors t)" by (cases "successors t") auto
  from schedule_okD(7) [OF ok t this] show ?thesis by blast
qed

text \<open>EF never exceeds LF, as long as EF fits in an int.\<close>

lemma EF_le_LF:
  assumes ok: "schedule_ok out" and fit: "\<forall>t\<in>set out. EF t \<le> INT_MAX"
  shows "t \<in> set out \<Longrightarrow> EF t \<le> LF t"
proof -
  have "\<forall>t\<in>set out. name t = n \<longrightarrow> EF t \<le> LF t" for n
    using schedule_ok_wf(2) [OF ok]
  proof (induction n rule: wf_induct_rule)
    case (less n)
    show ?case
    proof (intro ballI impI)
      fix t assume t: "t \<in> set out" "name t = n"
      from schedule_okD(9) [OF ok t(1)] consider "successors t = []" | "LF t = INT_MAX"
        | q where "q \<in> set out" "name t \<in> set (dependencies q)" "LF t = LS q" by blast
      then show "EF t \<le> LF t"
      proof cases
        case 1
        with schedule_okD(8) [OF ok t(1)] show ?thesis by simp
      next
        case 2
        with fit t(1) show ?thesis by simp
      next
        case 3
        from schedule_ok_edge [OF ok t(1) 3(1) 3(2)] t(2)
        have "(name q, n) \<in> (depRel out)\<inverse>" by simp
        from less [OF this] 3(1) have "EF q \<le> LF q" by simp
        moreover from schedule_okD(5) [OF ok 3(1) t(1) 3(2)] have "EF t \<le> ES q" by simp
        moreover note schedule_okD(1,2) [OF ok 3(1)] 3(3)
        ultimately show ?thesis by simp
      qed
    qed
  qed
  then show "t \<in> set out \<Longrightarrow> EF t \<le> LF t" by blast
qed

text \<open>The project length is the greatest EF.\<close>

lemma projectLengthFrom_bounds:
  "p \<le> projectLengthFrom p ts \<and> (\<forall>t\<in>set ts. EF t \<le> projectLengthFrom p ts) \<and>
   (projectLengthFrom p ts = p \<or> (\<exists>t\<in>set ts. projectLengthFrom p ts = EF t))"
proof (induction ts arbitrary: p)
  case Nil
  show ?case by simp
next
  case (Cons t ts)
  from Cons.IH [of "if EF t > p then EF t else p"] show ?case
    by (auto split: if_splits)
qed

lemma projectLength_upper: "t \<in> set out \<Longrightarrow> EF t \<le> projectLength out"
  using projectLengthFrom_bounds [of 0 out] by (simp add: projectLength_def)

lemma projectLength_attained:
  assumes "out \<noteq> []" "\<forall>t\<in>set out. 0 \<le> EF t"
  shows "\<exists>t\<in>set out. EF t = projectLength out"
proof -
  from projectLengthFrom_bounds [of 0 out] consider "projectLength out = 0"
    | t where "t \<in> set out" "projectLength out = EF t"
    by (auto simp: projectLength_def)
  then show ?thesis
  proof cases
    case 1
    from assms(1) obtain t where t: "t \<in> set out" by (cases out) auto
    with assms(2) have "0 \<le> EF t" by blast
    with projectLength_upper [OF t] 1 have "EF t = projectLength out" by simp
    with t show ?thesis by blast
  next
    case 2
    then show ?thesis by auto
  qed
qed

lemma projectLength_Max:
  assumes "out \<noteq> []" "\<forall>t\<in>set out. 0 \<le> EF t"
  shows "projectLength out = Max (EF ` set out)"
proof -
  from projectLength_attained [OF assms] obtain t where
    "t \<in> set out" "EF t = projectLength out" by blast
  then have "projectLength out \<in> EF ` set out" by force
  moreover have "\<forall>x\<in>EF ` set out. x \<le> projectLength out"
    by (auto intro: projectLength_upper)
  ultimately show ?thesis by (intro Max_eqI [symmetric]) auto
qed

text \<open>With non-negative durations, EF grows along the edges and LF shrinks against them.\<close>

lemma EF_le_leaf:
  assumes ok: "schedule_ok out" and nn: "\<forall>t\<in>set out. 0 \<le> duration t"
  shows "t \<in> set out \<Longrightarrow> \<exists>l\<in>set out. successors l = [] \<and> EF t \<le> EF l"
proof -
  have "\<forall>t\<in>set out. name t = n \<longrightarrow> (\<exists>l\<in>set out. successors l = [] \<and> EF t \<le> EF l)" for n
    using schedule_ok_wf(2) [OF ok]
  proof (induction n rule: wf_induct_rule)
    case (less n)
    show ?case
    proof (intro ballI impI)
      fix t assume t: "t \<in> set out" "name t = n"
      show "\<exists>l\<in>set out. successors l = [] \<and> EF t \<le> EF l"
      proof (cases "successors t = []")
        case True
        with t(1) show ?thesis by auto
      next
        case False
        from schedule_ok_successor [OF ok t(1) False] obtain q where
          q: "q \<in> set out" "name t \<in> set (dependencies q)" by blast
        from schedule_ok_edge [OF ok t(1) q] t(2)
        have "(name q, n) \<in> (depRel out)\<inverse>" by simp
        from less [OF this] q(1) obtain l where
          l: "l \<in> set out" "successors l = []" "EF q \<le> EF l" by blast
        from schedule_okD(5) [OF ok q(1) t(1) q(2)] have "EF t \<le> ES q" by simp
        with schedule_okD(1) [OF ok q(1)] nn q(1) have "EF t \<le> EF q" by fastforce
        with l show ?thesis by (intro bexI [of _ l]) simp_all
      qed
    qed
  qed
  then show "t \<in> set out \<Longrightarrow> \<exists>l\<in>set out. successors l = [] \<and> EF t \<le> EF l" by blast
qed

lemma LF_le_projectLength:
  assumes ok: "schedule_ok out" and nn: "\<forall>t\<in>set out. 0 \<le> duration t"
  shows "t \<in> set out \<Longrightarrow> LF t \<le> projectLength out"
proof -
  have "\<forall>t\<in>set out. name t = n \<longrightarrow> LF t \<le> projectLength out" for n
    using schedule_ok_wf(2) [OF ok]
  proof (induction n rule: wf_induct_rule)
    case (less n)
    show ?case
    proof (intro ballI impI)
      fix t assume t: "t \<in> set out" "name t = n"
      show "LF t \<le> projectLength out"
      proof (cases "successors t = []")
        case True
        with schedule_okD(8) [OF ok t(1)] projectLength_upper [OF t(1)] show ?thesis by simp
      next
        case False
        from schedule_ok_successor [OF ok t(1) False] obtain q where
          q: "q \<in> set out" "name t \<in> set (dependencies q)" by blast
        from schedule_ok_edge [OF ok t(1) q] t(2)
        have "(name q, n) \<in> (depRel out)\<inverse>" by simp
        from less [OF this] q(1) have "LF q \<le> projectLength out" by simp
        moreover from schedule_okD(5) [OF ok q(1) t(1) q(2)] have "LF t \<le> LS q" by simp
        moreover from schedule_okD(2) [OF ok q(1)] nn q(1) have "LS q \<le> LF q" by fastforce
        ultimately show ?thesis by simp
      qed
    qed
  qed
  then show "t \<in> set out \<Longrightarrow> LF t \<le> projectLength out" by blast
qed

text \<open>Critical chains.\<close>

lemma is_chain_snoc:
  "xs \<noteq> [] \<Longrightarrow> is_chain xs \<Longrightarrow> name (last xs) \<in> set (dependencies t) \<Longrightarrow>
     name t \<in> set (successors (last xs)) \<Longrightarrow> is_chain (xs @ [t])"
proof (induction xs rule: is_chain.induct)
  case 1
  then show ?case by simp
next
  case (2 x)
  then show ?case by simp
next
  case (3 p q rest)
  then show ?case by simp
qed

lemma critical_chain:
  assumes ok: "schedule_ok out" and nn: "\<forall>t\<in>set out. 0 \<le> duration t"
    and fit: "\<forall>t\<in>set out. EF t \<le> INT_MAX"
  shows "t \<in> set out \<Longrightarrow> slack t = 0 \<Longrightarrow>
    \<exists>path. path \<noteq> [] \<and> set path \<subseteq> set out \<and> is_chain path \<and> last path = t \<and>
       dependencies (hd path) = [] \<and> (\<forall>u\<in>set path. slack u = 0) \<and>
       sum_list (map duration path) = EF t"
proof -
  have "\<forall>t\<in>set out. name t = n \<longrightarrow> slack t = 0 \<longrightarrow>
    (\<exists>path. path \<noteq> [] \<and> set path \<subseteq> set out \<and> is_chain path \<and> last path = t \<and>
       dependencies (hd path) = [] \<and> (\<forall>u\<in>set path. slack u = 0) \<and>
       sum_list (map duration path) = EF t)" for n
    using schedule_ok_wf(1) [OF ok]
  proof (induction n rule: wf_induct_rule)
    case (less n)
    show ?case
    proof (intro ballI impI)
      fix t assume t: "t \<in> set out" "name t = n" and crit: "slack t = 0"
      note tf = schedule_okD [OF ok t(1)]
      from crit tf(3) have ls: "LS t = ES t" by simp
      show "\<exists>path. path \<noteq> [] \<and> set path \<subseteq> set out \<and> is_chain path \<and> last path = t \<and>
       dependencies (hd path) = [] \<and> (\<forall>u\<in>set path. slack u = 0) \<and>
       sum_list (map duration path) = EF t"
      proof (cases "dependencies t = []")
        case True
        with tf(6) have "ES t = 0" by auto
        with tf(1) True t(1) crit show ?thesis
          by (intro exI [of _ "[t]"]) simp
      next
        case False
        have "\<exists>p\<in>set out. name p \<in> set (dependencies t) \<and> ES t = EF p"
        proof (cases "ES t = 0")
          case True
          from False obtain d where d: "d \<in> set (dependencies t)" by (cases "dependencies t") auto
          from tf(10) [OF d] obtain p where p: "p \<in> set out" "name p = d" by blast
          from tf(5) [OF p(1)] p(2) d have "EF p \<le> ES t" by simp
          moreover from schedule_okD(1,4) [OF ok p(1)] nn p(1) have "0 \<le> EF p" by fastforce
          ultimately have "ES t = EF p" using True by simp
          with p d show ?thesis by blast
        next
          case False
          with tf(6) show ?thesis by simp
        qed
        then obtain p where p: "p \<in> set out" "name p \<in> set (dependencies t)" "ES t = EF p"
          by blast
        note pf = schedule_okD [OF ok p(1)]
        from tf(5) [OF p(1) p(2)] have e: "LF p \<le> LS t" "name t \<in> set (successors p)" by simp_all
        from EF_le_LF [OF ok fit p(1)] e(1) ls p(3) have "LF p = EF p" by simp
        with pf(1,2,3) have pc: "slack p = 0" by simp
        from schedule_ok_edge [OF ok p(1) t(1) p(2)] t(2) have "(name p, n) \<in> depRel out" by simp
        from less [OF this] p(1) pc obtain path where
          path: "path \<noteq> []" "set path \<subseteq> set out" "is_chain path" "last path = p"
            "dependencies (hd path) = []" "\<forall>u\<in>set path. slack u = 0"
            "sum_list (map duration path) = EF p" by blast
        from is_chain_snoc [OF path(1,3)] path(4) p(2) e(2) have "is_chain (path @ [t])" by simp
        moreover from path(1) have "hd (path @ [t]) = hd path" by simp
        moreover from path(7) p(3) tf(1) have "sum_list (map duration (path @ [t])) = EF t" by simp
        ultimately show ?thesis
          using path t(1) crit by (intro exI [of _ "path @ [t]"]) simp
      qed
    qed
  qed
  then show "t \<in> set out \<Longrightarrow> slack t = 0 \<Longrightarrow>
    \<exists>path. path \<noteq> [] \<and> set path \<subseteq> set out \<and> is_chain path \<and> last path = t \<and>
       dependencies (hd path) = [] \<and> (\<forall>u\<in>set path. slack u = 0) \<and>
       sum_list (map duration path) = EF t" by blast
qed

text \<open>
  EF is the length of a chain of distinct tasks, hence at most the sum of all durations:
  the bound that keeps every sum of the passes inside the range of int.
\<close>

lemma EF_le_sum_durations:
  assumes ok: "schedule_ok out" and nn: "\<forall>t\<in>set out. 0 \<le> duration t"
  shows "t \<in> set out \<Longrightarrow> EF t \<le> sum_list (map duration out)"
proof -
  define A where "A n = {u \<in> set out. (name u, n) \<in> (depRel out)\<^sup>*}" for n
  have fin: "finite (A n)" for n by (simp add: A_def)
  have sub: "A n \<subseteq> set out" for n by (auto simp: A_def)
  have nnA: "\<forall>u\<in>A n. 0 \<le> duration u" for n using nn sub by blast
  from ok have acyc: "acyclic (depRel out)" and dist: "distinct (map name out)"
    by (simp_all add: schedule_ok_def)
  have step: "\<forall>t\<in>set out. name t = n \<longrightarrow> EF t \<le> sum duration (A n)" for n
    using schedule_ok_wf(1) [OF ok]
  proof (induction n rule: wf_induct_rule)
    case (less n)
    show ?case
    proof (intro ballI impI)
      fix t assume t: "t \<in> set out" "name t = n"
      note tf = schedule_okD [OF ok t(1)]
      from t have tA: "t \<in> A n" by (simp add: A_def)
      from schedule_okD(6) [OF ok t(1)] consider "ES t = 0"
        | p where "p \<in> set out" "name p \<in> set (dependencies t)" "ES t = EF p" by blast
      then show "EF t \<le> sum duration (A n)"
      proof cases
        case 1
        with tf(1) have "EF t = duration t" by simp
        also have "\<dots> \<le> sum duration (A n)"
          using fin tA nnA by (intro member_le_sum) auto
        finally show ?thesis .
      next
        case 2
        from schedule_ok_edge [OF ok 2(1) t(1) 2(2)] t(2)
        have e: "(name p, n) \<in> depRel out" by simp
        from less [OF e] 2(1) have ih: "EF p \<le> sum duration (A (name p))" by simp
        have "A (name p) \<subseteq> A n - {t}"
        proof
          fix u assume u: "u \<in> A (name p)"
          then have r: "u \<in> set out" "(name u, name p) \<in> (depRel out)\<^sup>*" by (simp_all add: A_def)
          from r(2) e have "(name u, n) \<in> (depRel out)\<^sup>*" by (rule rtrancl_into_rtrancl)
          moreover have "u \<noteq> t"
          proof
            assume "u = t"
            with r(2) t(2) have "(n, name p) \<in> (depRel out)\<^sup>*" by simp
            with e have "(name p, name p) \<in> (depRel out)\<^sup>+" by (rule rtrancl_into_trancl2)
            with acyc show False by (auto simp: acyclic_def)
          qed
          ultimately show "u \<in> A n - {t}" using r(1) by (simp add: A_def)
        qed
        then have "sum duration (A (name p)) \<le> sum duration (A n - {t})"
          using fin nnA by (intro sum_mono2) auto
        moreover have "sum duration (A n) = duration t + sum duration (A n - {t})"
          using fin tA by (rule sum.remove)
        ultimately show ?thesis using ih tf(1) 2(3) by simp
      qed
    qed
  qed
  have top: "sum duration (A n) \<le> sum_list (map duration out)" for n
  proof -
    from dist have "distinct out" by (simp add: distinct_map)
    then have "sum_list (map duration out) = sum duration (set out)"
      by (rule sum_list_distinct_conv_sum_set)
    moreover have "sum duration (A n) \<le> sum duration (set out)"
      using sub nn by (intro sum_mono2) auto
    ultimately show ?thesis by simp
  qed
  show "EF t \<le> sum_list (map duration out)" if "t \<in> set out"
  proof -
    from step [of "name t"] that have "EF t \<le> sum duration (A (name t))" by simp
    with top [of "name t"] show ?thesis by simp
  qed
qed

lemma main_durations:
  assumes run: "main k g rows = Some (Inr out)" and fit: "durations_fit rows"
  shows "\<forall>t\<in>set out. 0 \<le> duration t" and "sum_list (map duration out) \<le> INT_MAX"
proof -
  note st = main_static [OF run]
  have "map duration out = map (\<lambda>r. fst (snd r)) (map static out)"
    by (simp add: static_def)
  with st have d: "map duration out = map (\<lambda>r. fst (snd r)) rows" by simp
  with fit show "sum_list (map duration out) \<le> INT_MAX" by (simp add: durations_fit_def)
  show "\<forall>t\<in>set out. 0 \<le> duration t"
  proof
    fix t assume "t \<in> set out"
    then have "duration t \<in> set (map duration out)" by simp
    with d have "duration t \<in> (\<lambda>r. fst (snd r)) ` set rows" by simp
    with fit show "0 \<le> duration t" by (auto simp: durations_fit_def)
  qed
qed

text \<open>The run on a valid DAG input whose durations fit.\<close>

lemma main_valid_run:
  assumes v: "valid_dag rows" and fit: "durations_fit rows"
  shows "\<exists>k out. main k g rows = Some (Inr out) \<and> schedule_ok out \<and>
           (\<forall>t\<in>set out. 0 \<le> duration t) \<and> (\<forall>t\<in>set out. EF t \<le> INT_MAX) \<and>
           length out = length rows \<and> map static out = rows"
proof -
  from v have "resolved rows" "acyclic (depEdges rows)" by (simp_all add: valid_dag_def)
  from main_terminates [OF this] obtain k out where run: "main k g rows = Some (Inr out)"
    by blast
  note ok = main_schedule_ok [OF run v]
  note d = main_durations [OF run fit]
  have "\<forall>t\<in>set out. EF t \<le> INT_MAX"
    using EF_le_sum_durations [OF ok d(1)] d(2) by fastforce
  moreover from main_static [OF run] have "length out = length rows" by (metis length_map)
  ultimately show ?thesis using run ok d(1) main_static [OF run] by blast
qed

lemma diamond_fit: "durations_fit diamond"
  by (simp add: durations_fit_def diamond_def INT_MAX_def)

lemma diamond_nonempty: "diamond \<noteq> []"
  by (simp add: diamond_def)

subsection \<open>The logged recursions compute the same values\<close>

lemma value_of_simps:
  "value_of None = None"
  "value_of (Some (Inl e)) = Some (Inl e)"
  "value_of (Some (Inr (v, l))) = Some (Inr v)"
  by (simp_all add: value_of_def)

lemma earlyStartLoop_log_value:
  assumes "\<forall>p. value_of (recL p) = rec p"
  shows "value_of (earlyStartLoop_log recL ds ts es calls) = earlyStartLoop rec ds ts es"
proof (induction ds arbitrary: es calls)
  case Nil
  show ?case by (simp add: value_of_simps)
next
  case (Cons d ds)
  show ?case
  proof (cases "getTaskFromList d ts")
    case (Inl e)
    then show ?thesis by (simp add: value_of_simps)
  next
    case (Inr p)
    from assms have v: "value_of (recL p) = rec p" by simp
    show ?thesis
    proof (cases "recL p")
      case None
      with v Inr show ?thesis by (simp add: value_of_simps bindR_simps)
    next
      case (Some x)
      show ?thesis
      proof (cases x)
        case (Inl e)
        with Some v have "rec p = Some (Inl e)" by (auto simp: value_of_simps)
        with Inl Some Inr show ?thesis by (simp add: value_of_simps bindR_simps)
      next
        case r: (Inr y)
        obtain s lg where y: "y = (s, lg)" by (cases y)
        with r Some v have "rec p = Some (Inr s)" by (auto simp: value_of_simps)
        with r Some y Inr Cons.IH show ?thesis by (simp add: bindR_simps Let_def)
      qed
    qed
  qed
qed

lemma getEarlyStartScore_log_value:
  "value_of (getEarlyStartScore_log k t ts) = getEarlyStartScore k t ts"
proof (induction k arbitrary: t)
  case 0
  show ?case by (simp add: value_of_simps)
next
  case (Suc k)
  have "value_of (earlyStartLoop_log (\<lambda>p. getEarlyStartScore_log k p ts) (dependencies t) ts 0
          [name t]) =
        earlyStartLoop (\<lambda>p. getEarlyStartScore k p ts) (dependencies t) ts 0"
    by (rule earlyStartLoop_log_value) (simp add: Suc.IH)
  then show ?case by (simp add: value_of_simps)
qed

lemma lateFinishLoop_log_value:
  assumes "\<forall>p. value_of (recL p) = rec p"
  shows "value_of (lateFinishLoop_log recL ds ts lf calls) = lateFinishLoop rec ds ts lf"
proof (induction ds arbitrary: lf calls)
  case Nil
  show ?case by (simp add: value_of_simps)
next
  case (Cons d ds)
  show ?case
  proof (cases "getTaskFromList d ts")
    case (Inl e)
    then show ?thesis by (simp add: value_of_simps)
  next
    case (Inr p)
    from assms have v: "value_of (recL p) = rec p" by simp
    show ?thesis
    proof (cases "recL p")
      case None
      with v Inr show ?thesis by (simp add: value_of_simps bindR_simps)
    next
      case (Some x)
      show ?thesis
      proof (cases x)
        case (Inl e)
        with Some v have "rec p = Some (Inl e)" by (auto simp: value_of_simps)
        with Inl Some Inr show ?thesis by (simp add: value_of_simps bindR_simps)
      next
        case r: (Inr y)
        obtain s lg where y: "y = (s, lg)" by (cases y)
        with r Some v have "rec p = Some (Inr s)" by (auto simp: value_of_simps)
        with r Some y Inr Cons.IH show ?thesis by (simp add: bindR_simps Let_def)
      qed
    qed
  qed
qed

lemma getLateFinishScore_log_value:
  "value_of (getLateFinishScore_log k t ts) = getLateFinishScore k t ts"
proof (induction k arbitrary: t)
  case 0
  show ?case by (simp add: value_of_simps)
next
  case (Suc k)
  have "value_of (lateFinishLoop_log (\<lambda>p. getLateFinishScore_log k p ts) (successors t) ts INT_MAX
          [name t]) =
        lateFinishLoop (\<lambda>p. getLateFinishScore k p ts) (successors t) ts INT_MAX"
    by (rule lateFinishLoop_log_value) (simp add: Suc.IH)
  then show ?case by (simp add: value_of_simps)
qed

text \<open>\<open>diamond_tasks\<close> is what the first two stages of main make of the diamond.\<close>

lemma diamond_tasks_reached:
  "bindR (updateAllEarlyVars 3 (loadCSV zeroTask diamond)) (\<lambda>tasks1. Some (populateSuccessors tasks1))
     = Some (Inr diamond_tasks)"
  by code_simp

subsection \<open>The log of a call holds the whole log of every inner call\<close>

lemma earlyStartLoop_log_calls:
  "earlyStartLoop_log rec ds ts es calls = Some (Inr (v, log)) \<Longrightarrow>
     \<exists>logs. list_all2 (\<lambda>d lg. \<exists>p s. getTaskFromList d ts = Inr p \<and> rec p = Some (Inr (s, lg)))
               ds logs \<and>
            log = calls @ concat logs"
proof (induction ds arbitrary: es calls)
  case Nil
  then show ?case by simp
next
  case (Cons d ds)
  from Cons.prems obtain p where p: "getTaskFromList d ts = Inr p"
    by (cases "getTaskFromList d ts") auto
  with Cons.prems obtain s lg where s: "rec p = Some (Inr (s, lg))"
    and rest: "earlyStartLoop_log rec ds ts (if s + duration p > es then s + duration p else es)
                 (calls @ lg) = Some (Inr (v, log))"
    by (auto simp: bindR_eq_Some Let_def)
  from Cons.IH [OF rest] obtain logs where
    logs: "list_all2 (\<lambda>d lg. \<exists>p s. getTaskFromList d ts = Inr p \<and> rec p = Some (Inr (s, lg)))
             ds logs" "log = (calls @ lg) @ concat logs" by blast
  from p s logs show ?case by (intro exI [of _ "lg # logs"]) auto
qed

lemma lateFinishLoop_log_calls:
  "lateFinishLoop_log rec ds ts lf calls = Some (Inr (v, log)) \<Longrightarrow>
     \<exists>logs. list_all2 (\<lambda>d lg. \<exists>p s. getTaskFromList d ts = Inr p \<and> rec p = Some (Inr (s, lg)))
               ds logs \<and>
            log = calls @ concat logs"
proof (induction ds arbitrary: lf calls)
  case Nil
  then show ?case by simp
next
  case (Cons d ds)
  from Cons.prems obtain p where p: "getTaskFromList d ts = Inr p"
    by (cases "getTaskFromList d ts") auto
  with Cons.prems obtain s lg where s: "rec p = Some (Inr (s, lg))"
    and rest: "lateFinishLoop_log rec ds ts (if s - duration p < lf then s - duration p else lf)
                 (calls @ lg) = Some (Inr (v, log))"
    by (auto simp: bindR_eq_Some Let_def)
  from Cons.IH [OF rest] obtain logs where
    logs: "list_all2 (\<lambda>d lg. \<exists>p s. getTaskFromList d ts = Inr p \<and> rec p = Some (Inr (s, lg)))
             ds logs" "log = (calls @ lg) @ concat logs" by blast
  from p s logs show ?case by (intro exI [of _ "lg # logs"]) auto
qed

subsection \<open>The forward pass on a ladder of diamonds\<close>

lemma ladder_names_inj:
  "sName i = sName j \<longleftrightarrow> i = j" "lName i = lName j \<longleftrightarrow> i = j" "rName i = rName j \<longleftrightarrow> i = j"
  "sName i \<noteq> lName j" "sName i \<noteq> rName j" "lName i \<noteq> rName j"
  "lName j \<noteq> sName i" "rName j \<noteq> sName i" "rName j \<noteq> lName i"
  by (auto simp: sName_def lName_def rName_def dest: arg_cong [where f = length])

lemma ladder_names:
  "fst ` set (ladder n) = {sName i | i. i \<le> n} \<union> {lName i | i. i < n} \<union> {rName i | i. i < n}"
proof (induction n)
  case 0
  show ?case by auto
next
  case (Suc n)
  have "fst ` set (ladder (Suc n)) =
    fst ` set (ladder n) \<union> {lName n, rName n, sName (Suc n)}" by auto
  also have "\<dots> = {sName i | i. i \<le> Suc n} \<union> {lName i | i. i < Suc n} \<union> {rName i | i. i < Suc n}"
    unfolding Suc.IH by (auto simp: le_Suc_eq less_Suc_eq)
  finally show ?case .
qed

lemma ladder_distinct: "distinct (map fst (ladder n))"
proof (induction n)
  case 0
  show ?case by simp
next
  case (Suc n)
  have "lName n \<notin> fst ` set (ladder n)" "rName n \<notin> fst ` set (ladder n)"
    "sName (Suc n) \<notin> fst ` set (ladder n)"
    unfolding ladder_names by (auto simp: ladder_names_inj)
  with Suc show ?case by (simp add: ladder_names_inj)
qed

lemma ladder_length: "length (ladder n) = 3 * n + 1"
  by (induction n) simp_all

lemma ladder_rows:
  "i \<le> n \<Longrightarrow> (sName i, 1, sDeps i) \<in> set (ladder n)"
  "i < n \<Longrightarrow> (lName i, 1, [sName i]) \<in> set (ladder n)"
  "i < n \<Longrightarrow> (rName i, 1, [sName i]) \<in> set (ladder n)"
proof (induction n)
  case 0
  { case 1 then show ?case by (simp add: sDeps_def) }
  { case 2 then show ?case by simp }
  { case 3 then show ?case by simp }
next
  case (Suc n)
  { case 1 then show ?case using Suc(1) by (cases "i = Suc n") (auto simp: sDeps_def) }
  { case 2 then show ?case using Suc(2) by (cases "i = n") auto }
  { case 3 then show ?case using Suc(3) by (cases "i = n") auto }
qed

lemma getTaskFromList_loadCSV:
  assumes "distinct (map fst rows)" "(n, d, ds) \<in> set rows"
  shows "getTaskFromList n (loadCSV g rows) = Inr (newTask g (n, d, ds))"
proof -
  from assms(1) have "distinct (map name (loadCSV g rows))" by (simp add: names_loadCSV)
  moreover from assms(2) have "newTask g (n, d, ds) \<in> set (loadCSV g rows)"
    by (simp add: loadCSV_def)
  ultimately have "getTaskFromList (name (newTask g (n, d, ds))) (loadCSV g rows)
      = Inr (newTask g (n, d, ds))" by (rule getTaskFromList_distinct)
  then show ?thesis by (simp add: newTask_def)
qed

lemma depEdges_append: "depEdges (xs @ ys) = depEdges xs \<union> depEdges ys"
  by (simp add: depEdges_def)

lemma ladder_valid: "valid_dag (ladder n)"
proof -
  define f where "f nm = (case nm of [] \<Rightarrow> 0
    | c # xs \<Rightarrow> if c = CHR ''s'' then 2 * length xs else 2 * length xs + 1)" for nm :: string
  have "\<forall>(a, b)\<in>depEdges (ladder n). f a < f b"
  proof (induction n)
    case 0
    show ?case by (simp add: depEdges_def)
  next
    case (Suc n)
    have "depEdges (ladder (Suc n)) = depEdges (ladder n) \<union>
      {(sName n, lName n), (sName n, rName n), (lName n, sName (Suc n)), (rName n, sName (Suc n))}"
      by (auto simp: depEdges_append) (auto simp: depEdges_def)
    with Suc show ?case by (auto simp: f_def sName_def lName_def rName_def)
  qed
  then have a: "acyclic (depEdges (ladder n))" by (rule acyclic_rank)
  have r: "resolved (ladder n)"
    unfolding resolved_def ladder_names
  proof (induction n)
    case 0
    show ?case by simp
  next
    case (Suc n)
    have "\<forall>r\<in>set (ladder n). set (snd (snd r))
          \<subseteq> {sName i |i. i \<le> Suc n} \<union> {lName i |i. i < Suc n} \<union> {rName i |i. i < Suc n}"
      using Suc by (fastforce simp: le_Suc_eq less_Suc_eq)
    then show ?case by auto
  qed
  from a r ladder_distinct show ?thesis by (simp add: valid_dag_def)
qed

text \<open>
  One call of getEarlyStartScore on \<open>s\<close> of level \<open>i\<close> makes \<open>2 ^ (i + 2) - 3\<close> calls of
  the function, on a ladder of \<open>3 * n + 1\<close> tasks.
\<close>

lemma ladder_calls:
  assumes "i \<le> n"
  shows "\<exists>v log. getEarlyStartScore_log (2 * i + 1) (newTask g (sName i, 1, sDeps i))
             (loadCSV g (ladder n)) = Some (Inr (v, log)) \<and> length log + 3 = 2 ^ (i + 2)"
  using assms
proof (induction i)
  case 0
  show ?case by (simp add: newTask_def sDeps_def)
next
  case (Suc i)
  let ?ts = "loadCSV g (ladder n)"
  from Suc obtain v log where
    ih: "getEarlyStartScore_log (2 * i + 1) (newTask g (sName i, 1, sDeps i)) ?ts
           = Some (Inr (v, log))" "length log + 3 = 2 ^ (i + 2)" by auto
  from Suc.prems have i: "i \<le> n" "i < n" by simp_all
  note look = getTaskFromList_loadCSV [OF ladder_distinct]
  have s: "getTaskFromList (sName i) ?ts = Inr (newTask g (sName i, 1, sDeps i))"
    by (rule look [OF ladder_rows(1) [OF i(1)]])
  have l: "getTaskFromList (lName i) ?ts = Inr (newTask g (lName i, 1, [sName i]))"
    by (rule look [OF ladder_rows(2) [OF i(2)]])
  have r: "getTaskFromList (rName i) ?ts = Inr (newTask g (rName i, 1, [sName i]))"
    by (rule look [OF ladder_rows(3) [OF i(2)]])
  have d: "duration (newTask g (sName i, 1, sDeps i)) = 1" by (simp add: newTask_def)
  have cl: "getEarlyStartScore_log (Suc (2 * i + 1)) (newTask g (lName i, 1, [sName i])) ?ts
      = Some (Inr (if v + 1 > 0 then v + 1 else 0, lName i # log))"
    using s ih(1) d by (simp add: newTask_def bindR_simps Let_def)
  have cr: "getEarlyStartScore_log (Suc (2 * i + 1)) (newTask g (rName i, 1, [sName i])) ?ts
      = Some (Inr (if v + 1 > 0 then v + 1 else 0, rName i # log))"
    using s ih(1) d by (simp add: newTask_def bindR_simps Let_def)
  have "\<exists>v'. getEarlyStartScore_log (Suc (Suc (2 * i + 1)))
        (newTask g (sName (Suc i), 1, sDeps (Suc i))) ?ts
      = Some (Inr (v', sName (Suc i) # (lName i # log) @ (rName i # log)))"
    using l r cl cr by (simp add: newTask_def sDeps_def bindR_simps Let_def)
  moreover have "length (sName (Suc i) # (lName i # log) @ (rName i # log)) + 3 = 2 ^ (Suc i + 2)"
    using ih(2) by simp
  ultimately show ?case by (metis add_2_eq_Suc' mult_Suc_right Suc_eq_plus1 add.commute)
qed

lemma ladder_last: "last (loadCSV g (ladder n)) = newTask g (sName n, 1, sDeps n)"
proof -
  have "ladder n \<noteq> []" "last (ladder n) = (sName n, 1, sDeps n)"
    by (cases n; simp add: sDeps_def)+
  then show ?thesis by (simp add: loadCSV_def last_map)
qed

subsection \<open>The output is unique and stays in the range of int\<close>

lemma main_unique:
  assumes "main k g rows = Some r" "main k' g rows = Some r'"
  shows "r = r'"
proof -
  from main_mono [OF assms(1), of "max k k'"] main_mono [OF assms(2), of "max k k'"]
  show ?thesis by simp
qed

text \<open>
  On a valid DAG input whose durations fit, every value that the passes store lies between
  0 and \<^verbatim>\<open>INT_MAX\<close>: the sums of the C++ program do not overflow there.
\<close>

lemma main_in_int_range:
  assumes "valid_dag rows" "durations_fit rows"
  shows "\<exists>k out. main k g rows = Some (Inr out) \<and>
           (\<forall>t\<in>set out. 0 \<le> ES t \<and> ES t \<le> EF t \<and> EF t \<le> INT_MAX \<and>
              0 \<le> LS t \<and> LS t \<le> LF t \<and> LF t \<le> INT_MAX \<and>
              0 \<le> slack t \<and> slack t \<le> INT_MAX)"
proof -
  from main_valid_run [OF assms] obtain k out where
    run: "main k g rows = Some (Inr out)" and ok: "schedule_ok out" and
    nn: "\<forall>t\<in>set out. 0 \<le> duration t" and
    fit: "\<forall>t\<in>set out. EF t \<le> INT_MAX" by blast
  have pl: "projectLength out \<le> INT_MAX"
    using projectLengthFrom_bounds [of 0 out] fit
    by (auto simp: projectLength_def INT_MAX_def)
  have "0 \<le> ES t \<and> ES t \<le> EF t \<and> EF t \<le> INT_MAX \<and>
        0 \<le> LS t \<and> LS t \<le> LF t \<and> LF t \<le> INT_MAX \<and>
        0 \<le> slack t \<and> slack t \<le> INT_MAX" if t: "t \<in> set out" for t
  proof -
    from nn t have d: "0 \<le> duration t" by blast
    from fit t have f: "EF t \<le> INT_MAX" by blast
    from EF_le_LF [OF ok fit t] LF_le_projectLength [OF ok nn t] pl
      schedule_okD(1,2,3,4) [OF ok t] d f
    show ?thesis by simp
  qed
  with run show ?thesis by blast
qed

lemma single_run:
  "main 1 zeroTask single = Some (Inr
     [\<lparr>name = ''a'', duration = 4, dependencies = [], successors = [],
        ES = 0, EF = 4, LS = 0, LF = 4, slack = 0\<rparr>]) \<and>
   projectLength
     [\<lparr>name = ''a'', duration = 4, dependencies = [], successors = [],
        ES = 0, EF = 4, LS = 0, LF = 4, slack = 0\<rparr>] = 4"
  by code_simp

subsection \<open>Both lookups return the first task of a name\<close>

lemma getTaskObjectFromList_iff:
  "getTaskObjectFromList n ts = Inr i \<longleftrightarrow>
     i < length ts \<and> name (ts ! i) = n \<and> (\<forall>j<i. name (ts ! j) \<noteq> n)"
proof (induction ts arbitrary: i)
  case Nil
  show ?case by simp
next
  case (Cons t ts)
  show ?case
  proof (cases "name t = n")
    case True
    show ?thesis
    proof
      assume "getTaskObjectFromList n (t # ts) = Inr i"
      with True show "i < length (t # ts) \<and> name ((t # ts) ! i) = n \<and>
          (\<forall>j<i. name ((t # ts) ! j) \<noteq> n)" by simp
    next
      assume a: "i < length (t # ts) \<and> name ((t # ts) ! i) = n \<and>
          (\<forall>j<i. name ((t # ts) ! j) \<noteq> n)"
      have "i = 0"
      proof (rule ccontr)
        assume "i \<noteq> 0"
        then have "0 < i" by simp
        with a have "name ((t # ts) ! 0) \<noteq> n" by blast
        with True show False by simp
      qed
      with True show "getTaskObjectFromList n (t # ts) = Inr i" by simp
    qed
  next
    case False
    show ?thesis
    proof
      assume "getTaskObjectFromList n (t # ts) = Inr i"
      with False obtain i' where i': "getTaskObjectFromList n ts = Inr i'" "i = Suc i'"
        by (auto split: sum.splits)
      from i'(1) Cons.IH [of i'] have
        h: "i' < length ts" "name (ts ! i') = n" "\<forall>j<i'. name (ts ! j) \<noteq> n" by simp_all
      have "\<forall>j<Suc i'. name ((t # ts) ! j) \<noteq> n"
      proof (intro allI impI)
        fix j assume "j < Suc i'"
        with h(3) False show "name ((t # ts) ! j) \<noteq> n" by (cases j) simp_all
      qed
      with h i'(2) show "i < length (t # ts) \<and> name ((t # ts) ! i) = n \<and>
          (\<forall>j<i. name ((t # ts) ! j) \<noteq> n)" by simp
    next
      assume a: "i < length (t # ts) \<and> name ((t # ts) ! i) = n \<and>
          (\<forall>j<i. name ((t # ts) ! j) \<noteq> n)"
      with False obtain i' where i': "i = Suc i'" by (cases i) auto
      from a i' have "i' < length ts" "name (ts ! i') = n" by simp_all
      moreover have "\<forall>j<i'. name (ts ! j) \<noteq> n"
      proof (intro allI impI)
        fix j assume "j < i'"
        then have "Suc j < i" using i' by simp
        with a have "name ((t # ts) ! Suc j) \<noteq> n" by blast
        then show "name (ts ! j) \<noteq> n" by simp
      qed
      ultimately have "getTaskObjectFromList n ts = Inr i'" using Cons.IH [of i'] by simp
      with False i' show "getTaskObjectFromList n (t # ts) = Inr i" by simp
    qed
  qed
qed

text \<open>A name that some task has is looked up, by both lookups, at its first index.\<close>

lemma lookup_first:
  assumes "n \<in> name ` set ts"
  shows "\<exists>i<length ts. getTaskFromList n ts = Inr (ts ! i) \<and>
           getTaskObjectFromList n ts = Inr i \<and> name (ts ! i) = n \<and>
           (\<forall>j<i. name (ts ! j) \<noteq> n)"
proof -
  from getTaskFromList_found [OF assms] obtain p where p: "getTaskFromList n ts = Inr p" by blast
  from getTaskFromList_index [OF p] obtain i where
    i: "getTaskObjectFromList n ts = Inr i" "p = ts ! i" by blast
  from i(1) have "i < length ts \<and> name (ts ! i) = n \<and> (\<forall>j<i. name (ts ! j) \<noteq> n)"
    by (simp add: getTaskObjectFromList_iff)
  with p i show ?thesis by blast
qed

lemma main_successors_first:
  assumes run: "main k g rows = Some (Inr out)" and j: "j < length out"
  shows "set (successors (out ! j)) =
    (if \<forall>i<j. name (out ! i) \<noteq> name (out ! j)
     then {name u | u. u \<in> set out \<and> name (out ! j) \<in> set (dependencies u)} else {})"
proof -
  have "{name (out ! i) | i. i < length out \<and>
       (\<exists>d\<in>set (dependencies (out ! i)). getTaskObjectFromList d out = Inr j)} =
    (if \<forall>i<j. name (out ! i) \<noteq> name (out ! j)
     then {name u | u. u \<in> set out \<and> name (out ! j) \<in> set (dependencies u)} else {})"
    (is "?L = ?R")
  proof (cases "\<forall>i<j. name (out ! i) \<noteq> name (out ! j)")
    case True
    have "?L = {name u | u. u \<in> set out \<and> name (out ! j) \<in> set (dependencies u)}"
    proof (intro set_eqI iffI)
      fix x assume "x \<in> ?L"
      then obtain i d where i: "x = name (out ! i)" "i < length out"
        "d \<in> set (dependencies (out ! i))" "getTaskObjectFromList d out = Inr j" by blast
      from i(4) have "name (out ! j) = d" by (simp add: getTaskObjectFromList_iff)
      with i show "x \<in> {name u | u. u \<in> set out \<and> name (out ! j) \<in> set (dependencies u)}"
        by (auto intro!: exI [of _ "out ! i"])
    next
      fix x assume "x \<in> {name u | u. u \<in> set out \<and> name (out ! j) \<in> set (dependencies u)}"
      then obtain u where u: "x = name u" "u \<in> set out" "name (out ! j) \<in> set (dependencies u)"
        by blast
      from u(2) obtain i where i: "i < length out" "u = out ! i" by (auto simp: in_set_conv_nth)
      from True j have "getTaskObjectFromList (name (out ! j)) out = Inr j"
        by (simp add: getTaskObjectFromList_iff)
      with u i show "x \<in> ?L" by blast
    qed
    with True show ?thesis by simp
  next
    case False
    have "?L = {}"
    proof (rule ccontr)
      assume "?L \<noteq> {}"
      then obtain i d where "getTaskObjectFromList d out = Inr j" by blast
      then have "name (out ! j) = d" "\<forall>i<j. name (out ! i) \<noteq> d"
        by (simp_all add: getTaskObjectFromList_iff)
      with False show False by blast
    qed
    moreover from False have "?R = {}" by (simp only: if_False)
    ultimately show ?thesis by simp
  qed
  with main_successors [OF run j] show ?thesis by simp
qed

section \<open>The claims\<close>

subsection \<open>Concrete runs\<close>

lemma diamond_valid: "valid_dag diamond"
proof -
  have "acyclic (depEdges diamond)"
    by (rule acyclic_rank [of _ "\<lambda>n. if n = ''a'' then 0 else if n = ''d'' then 2 else 1"])
       (simp add: depEdges_def diamond_def)
  then show ?thesis by (simp add: valid_dag_def resolved_def diamond_def)
qed

lemma diamond_run:
  "main 3 zeroTask diamond = Some (Inr
     [\<lparr>name = ''a'', duration = 2, dependencies = [], successors = [''b'', ''c''],
        ES = 0, EF = 2, LS = 0, LF = 2, slack = 0\<rparr>,
      \<lparr>name = ''b'', duration = 3, dependencies = [''a''], successors = [''d''],
        ES = 2, EF = 5, LS = 2, LF = 5, slack = 0\<rparr>,
      \<lparr>name = ''c'', duration = 2, dependencies = [''a''], successors = [''d''],
        ES = 2, EF = 4, LS = 3, LF = 5, slack = 1\<rparr>,
      \<lparr>name = ''d'', duration = 5, dependencies = [''b'', ''c''], successors = [],
        ES = 5, EF = 10, LS = 5, LF = 10, slack = 0\<rparr>])"
  by code_simp

subsection \<open>C1: late finish of a task without successors\<close>

text \<open>
  Claim C1 says that every task without successors has LF equal to the project finish
  time, the maximum EF. The code gives such a task its own EF (line 200): on \<open>two_ends\<close>
  task \<open>a\<close> has no successor and gets LF = 2, while the project length is 5.
\<close>

theorem C1_leaf_gets_its_own_EF:
  "main 1 zeroTask two_ends = Some (Inr
     [\<lparr>name = ''a'', duration = 2, dependencies = [], successors = [],
        ES = 0, EF = 2, LS = 0, LF = 2, slack = 0\<rparr>,
      \<lparr>name = ''b'', duration = 5, dependencies = [], successors = [],
        ES = 0, EF = 5, LS = 0, LF = 5, slack = 0\<rparr>]) \<and>
   projectLength
     [\<lparr>name = ''a'', duration = 2, dependencies = [], successors = [],
        ES = 0, EF = 2, LS = 0, LF = 2, slack = 0\<rparr>,
      \<lparr>name = ''b'', duration = 5, dependencies = [], successors = [],
        ES = 0, EF = 5, LS = 0, LF = 5, slack = 0\<rparr>] = 5"
  by code_simp

subsection \<open>C2: cyclic inputs\<close>

text \<open>
  Claim C2 says that an input whose predecessor graph has a cycle is rejected with a
  CyclicDependency error before any timing pass. Counterexample: the program has no cycle
  check; on \<open>two_cycle\<close> the forward pass recurses from \<open>a\<close> to \<open>b\<close> and back
  without end, so that no recursion depth lets main return: no error value is produced.
\<close>

theorem C2_counterexample: "diverges zeroTask two_cycle"
  unfolding diverges_def
proof
  fix k
  have "updateAllEarlyVars k (loadCSV zeroTask two_cycle) = None"
    using two_cycle_calls [of k]
    by (simp add: updateAllEarlyVars_def two_cycle_def loadCSV_def upt_rec bindR_simps)
  then show "main k zeroTask two_cycle = None" by (simp add: main_def bindR_simps)
qed

text \<open>
  Claim C2, amended. For every input with unique names whose dependency relation has a
  cycle, main never returns a schedule, whatever the recursion depth; when moreover every
  dependency name resolves, main does not return at all (no error is raised).
\<close>

theorem C2_cycle_gives_no_schedule:
  assumes "distinct (map fst rows)" "\<not> acyclic (depEdges rows)"
  shows "(\<forall>out. main k g rows \<noteq> Some (Inr out)) \<and> (resolved rows \<longrightarrow> main k g rows = None)"
proof -
  let ?ts0 = "loadCSV g rows"
  from forward_pass_on_cycle [OF assms] have
    ne: "\<forall>ts1. updateAllEarlyVars k ?ts0 \<noteq> Some (Inr ts1)" by blast
  note f = main_eq_forward_failure [OF ne]
  from f have 1: "\<forall>out. main k g rows \<noteq> Some (Inr out)" by auto
  have 2: "main k g rows = None" if r: "resolved rows"
  proof (rule ccontr)
    assume "main k g rows \<noteq> None"
    with f obtain e where "updateAllEarlyVars k ?ts0 = Some (Inl e)" by auto
    from updateAllEarlyVars_Inl [OF this] obtain t where
      "t \<in> set ?ts0" "getEarlyStartScore k t ?ts0 = Some (Inl e)" by blast
    with getEarlyStartScore_resolved [of ?ts0 t k e] r show False
      by (simp add: resolvedT_loadCSV)
  qed
  from 1 2 show ?thesis by blast
qed

text \<open>Witness for C2, amended: \<open>two_cycle\<close> at depth 5.\<close>

theorem C2_witness:
  "distinct (map fst two_cycle) \<and> \<not> acyclic (depEdges two_cycle) \<and>
   (\<forall>out. main 5 zeroTask two_cycle \<noteq> Some (Inr out)) \<and>
   resolved two_cycle \<and> main 5 zeroTask two_cycle = None"
proof -
  have d: "distinct (map fst two_cycle)" by (simp add: two_cycle_def)
  have r: "resolved two_cycle" by (simp add: resolved_def two_cycle_def)
  have "(''a'', ''b'') \<in> depEdges two_cycle" "(''b'', ''a'') \<in> depEdges two_cycle"
    by (simp_all add: depEdges_def two_cycle_def)
  then have "(''a'', ''a'') \<in> (depEdges two_cycle)\<^sup>+" by (rule trancl_into_trancl2 [OF _ r_into_trancl])
  then have c: "\<not> acyclic (depEdges two_cycle)" by (auto simp: acyclic_def)
  from C2_cycle_gives_no_schedule [OF d c, of 5 zeroTask] d c r show ?thesis by blast
qed

subsection \<open>C3: duplicate names\<close>

text \<open>
  Claim C3 says that an input in which two rows share a name fails with DuplicateTask.
  Counterexample: the program has no such check; on \<open>twins\<close> main returns a schedule
  with both rows named \<open>a\<close>, and the dependency of \<open>b\<close> on \<open>a\<close> is resolved to the
  first of them (ES of \<open>b\<close> is 2, not 3).
\<close>

theorem C3_counterexample:
  "main 2 zeroTask twins = Some (Inr
     [\<lparr>name = ''a'', duration = 2, dependencies = [], successors = [''b''],
        ES = 0, EF = 2, LS = 0, LF = 2, slack = 0\<rparr>,
      \<lparr>name = ''a'', duration = 3, dependencies = [], successors = [],
        ES = 0, EF = 3, LS = 0, LF = 3, slack = 0\<rparr>,
      \<lparr>name = ''b'', duration = 1, dependencies = [''a''], successors = [],
        ES = 2, EF = 3, LS = 2, LF = 3, slack = 0\<rparr>])"
  by code_simp

text \<open>
  Claim C3, amended. An input in which two rows share a name is not rejected: when every
  dependency name resolves and the dependency relation is acyclic, main returns a
  schedule with one task per row (with the row's name, duration and dependencies), the
  rows of the shared name included. A lookup by name resolves to the first task of that
  name: getTaskFromList and getTaskObjectFromList return, for every name of the input, the
  task at the first index that has it. So every dependency entry is attached to the first
  task of the name it gives: that task's successors are the names of all the tasks that
  list its name, and a task that is not the first of its name gets no successor. The
  statement speaks of names, lookups and successor vectors only, which no integer sum
  enters.
\<close>

theorem C3_duplicates_are_scheduled:
  assumes "\<not> distinct (map fst rows)" "resolved rows" "acyclic (depEdges rows)"
  shows "\<exists>k out. main k g rows = Some (Inr out) \<and> map static out = rows \<and>
     (\<forall>n\<in>fst ` set rows. \<exists>i<length out.
        getTaskFromList n out = Inr (out ! i) \<and> getTaskObjectFromList n out = Inr i \<and>
        name (out ! i) = n \<and> (\<forall>j<i. name (out ! j) \<noteq> n)) \<and>
     (\<forall>j<length out. set (successors (out ! j)) =
        (if \<forall>i<j. name (out ! i) \<noteq> name (out ! j)
         then {name u | u. u \<in> set out \<and> name (out ! j) \<in> set (dependencies u)} else {}))"
proof -
  from main_terminates [OF assms(2,3)] obtain k out where run: "main k g rows = Some (Inr out)"
    by blast
  note st = main_static [OF run]
  have "name ` set out = fst ` set rows"
    using names_static [of out] st by (metis set_map)
  then have 1: "\<forall>n\<in>fst ` set rows. \<exists>i<length out.
        getTaskFromList n out = Inr (out ! i) \<and> getTaskObjectFromList n out = Inr i \<and>
        name (out ! i) = n \<and> (\<forall>j<i. name (out ! j) \<noteq> n)"
    using lookup_first [of _ out] by simp
  have 2: "\<forall>j<length out. set (successors (out ! j)) =
        (if \<forall>i<j. name (out ! i) \<noteq> name (out ! j)
         then {name u | u. u \<in> set out \<and> name (out ! j) \<in> set (dependencies u)} else {})"
    using main_successors_first [OF run] by blast
  from run st 1 2 show ?thesis by blast
qed

text \<open>Witness for C3, amended: \<open>twins\<close>.\<close>

theorem C3_witness:
  "\<not> distinct (map fst twins) \<and> resolved twins \<and> acyclic (depEdges twins) \<and>
   (\<exists>k out. main k zeroTask twins = Some (Inr out) \<and> map static out = twins \<and>
     (\<forall>n\<in>fst ` set twins. \<exists>i<length out.
        getTaskFromList n out = Inr (out ! i) \<and> getTaskObjectFromList n out = Inr i \<and>
        name (out ! i) = n \<and> (\<forall>j<i. name (out ! j) \<noteq> n)) \<and>
     (\<forall>j<length out. set (successors (out ! j)) =
        (if \<forall>i<j. name (out ! i) \<noteq> name (out ! j)
         then {name u | u. u \<in> set out \<and> name (out ! j) \<in> set (dependencies u)} else {})))"
proof -
  have a: "acyclic (depEdges twins)"
    by (rule acyclic_rank [of _ "\<lambda>n. if n = ''a'' then 0 else 1"])
       (simp add: depEdges_def twins_def)
  have "\<not> distinct (map fst twins)" "resolved twins"
    by (simp_all add: twins_def resolved_def)
  note h = this a
  from C3_duplicates_are_scheduled [OF h, of zeroTask] h show ?thesis by blast
qed

subsection \<open>C4: the critical chain\<close>

text \<open>
  Claim C4. For every valid DAG input with at least one task (durations non-negative, their
  sum within the range of int) the run of main returns; in its output some task has slack
  0, and there is a chain of predecessor-to-successor edges, all of whose tasks have slack
  0, from a task without dependencies to a task without successors, whose durations sum to
  the project length.
\<close>

theorem C4_critical_chain:
  assumes "valid_dag rows" "durations_fit rows" "rows \<noteq> []"
  shows "\<exists>k out. main k g rows = Some (Inr out) \<and> map static out = rows \<and>
           (\<exists>t\<in>set out. slack t = 0) \<and>
           (\<exists>path. path \<noteq> [] \<and> set path \<subseteq> set out \<and> is_chain path \<and>
              dependencies (hd path) = [] \<and> successors (last path) = [] \<and>
              (\<forall>t\<in>set path. slack t = 0) \<and>
              sum_list (map duration path) = projectLength out)"
proof -
  from main_valid_run [OF assms(1,2)] obtain k out where
    run: "main k g rows = Some (Inr out)" and ok: "schedule_ok out" and
    nn: "\<forall>t\<in>set out. 0 \<le> duration t" and
    fit: "\<forall>t\<in>set out. EF t \<le> INT_MAX" and len: "length out = length rows" and
    st: "map static out = rows" by blast
  from len assms(3) have ne: "out \<noteq> []" by auto
  have ef0: "\<forall>t\<in>set out. 0 \<le> EF t"
    using schedule_okD(1,4) [OF ok] nn by fastforce
  from projectLength_attained [OF ne ef0] obtain t where
    t: "t \<in> set out" "EF t = projectLength out" by blast
  from EF_le_leaf [OF ok nn t(1)] obtain l where
    l: "l \<in> set out" "successors l = []" "EF t \<le> EF l" by blast
  from l(3) t(2) projectLength_upper [OF l(1)] have pl: "EF l = projectLength out" by simp
  from schedule_okD(8) [OF ok l(1) l(2)] schedule_okD(1,2,3) [OF ok l(1)]
  have crit: "slack l = 0" by simp
  from critical_chain [OF ok nn fit l(1) crit] obtain path where
    "path \<noteq> []" "set path \<subseteq> set out" "is_chain path" "last path = l"
    "dependencies (hd path) = []" "\<forall>u\<in>set path. slack u = 0"
    "sum_list (map duration path) = EF l" by blast
  with l(2) pl have "\<exists>path. path \<noteq> [] \<and> set path \<subseteq> set out \<and> is_chain path \<and>
              dependencies (hd path) = [] \<and> successors (last path) = [] \<and>
              (\<forall>t\<in>set path. slack t = 0) \<and>
              sum_list (map duration path) = projectLength out"
    by (intro exI [of _ path]) simp
  with run st l(1) crit show ?thesis by blast
qed

text \<open>Witness for C4: the diamond (its critical chain is a, b, d; the project length 10).\<close>

theorem C4_witness:
  "valid_dag diamond \<and> durations_fit diamond \<and> diamond \<noteq> [] \<and>
   (\<exists>k out. main k zeroTask diamond = Some (Inr out) \<and> map static out = diamond \<and>
      (\<exists>t\<in>set out. slack t = 0) \<and>
      (\<exists>path. path \<noteq> [] \<and> set path \<subseteq> set out \<and> is_chain path \<and>
         dependencies (hd path) = [] \<and> successors (last path) = [] \<and>
         (\<forall>t\<in>set path. slack t = 0) \<and>
         sum_list (map duration path) = projectLength out))"
  using C4_critical_chain [OF diamond_valid diamond_fit diamond_nonempty, of zeroTask]
    diamond_valid diamond_fit diamond_nonempty by blast

subsection \<open>C5: the project length\<close>

text \<open>
  Claim C5. For every valid DAG input with at least one task (durations non-negative, their
  sum within the range of int) the run of main returns, and the project length that
  outputTimelineCSV determines is the greatest EF and also the greatest LF of the output.
\<close>

theorem C5_passes_agree_on_project_length:
  assumes "valid_dag rows" "durations_fit rows" "rows \<noteq> []"
  shows "\<exists>k out. main k g rows = Some (Inr out) \<and> map static out = rows \<and>
           projectLength out = Max (EF ` set out) \<and> projectLength out = Max (LF ` set out)"
proof -
  from main_valid_run [OF assms(1,2)] obtain k out where
    run: "main k g rows = Some (Inr out)" and ok: "schedule_ok out" and
    nn: "\<forall>t\<in>set out. 0 \<le> duration t" and
    fit: "\<forall>t\<in>set out. EF t \<le> INT_MAX" and len: "length out = length rows" and
    st: "map static out = rows" by blast
  from len assms(3) have ne: "out \<noteq> []" by auto
  have ef0: "\<forall>t\<in>set out. 0 \<le> EF t"
    using schedule_okD(1,4) [OF ok] nn by fastforce
  note m1 = projectLength_Max [OF ne ef0]
  from projectLength_attained [OF ne ef0] obtain t where
    t: "t \<in> set out" "EF t = projectLength out" by blast
  from EF_le_LF [OF ok fit t(1)] LF_le_projectLength [OF ok nn t(1)] t(2)
  have "LF t = projectLength out" by simp
  with t(1) have "projectLength out \<in> LF ` set out" by force
  moreover have "\<forall>x\<in>LF ` set out. x \<le> projectLength out"
    using LF_le_projectLength [OF ok nn] by auto
  ultimately have "projectLength out = Max (LF ` set out)"
    by (intro Max_eqI [symmetric]) auto
  with m1 run st show ?thesis by blast
qed

text \<open>Witness for C5: the diamond.\<close>

theorem C5_witness:
  "valid_dag diamond \<and> durations_fit diamond \<and> diamond \<noteq> [] \<and>
   (\<exists>k out. main k zeroTask diamond = Some (Inr out) \<and> map static out = diamond \<and>
      projectLength out = Max (EF ` set out) \<and> projectLength out = Max (LF ` set out))"
  using C5_passes_agree_on_project_length [OF diamond_valid diamond_fit diamond_nonempty,
      of zeroTask]
    diamond_valid diamond_fit diamond_nonempty by blast

subsection \<open>C6: finish is start plus duration\<close>

text \<open>
  Claim C6. For every valid DAG input (with the non-negative durations of the data model,
  their sum within the range of int) the run of main returns; its output has one task per
  row, with the row's name, duration and dependencies, and every task of it has
  EF = ES + duration and LF = LS + duration, all four values between 0 and
  \<^verbatim>\<open>INT_MAX\<close>: the two equations are equations of C++ ints, without overflow.
\<close>

theorem C6_finish_is_start_plus_duration:
  assumes "valid_dag rows" "durations_fit rows"
  shows "\<exists>k out. main k g rows = Some (Inr out) \<and> map static out = rows \<and>
           (\<forall>t\<in>set out. EF t = ES t + duration t \<and> LF t = LS t + duration t \<and>
              0 \<le> ES t \<and> EF t \<le> INT_MAX \<and> 0 \<le> LS t \<and> LF t \<le> INT_MAX)"
proof -
  from main_valid_run [OF assms] obtain k out where
    run: "main k g rows = Some (Inr out)" and ok: "schedule_ok out" and
    nn: "\<forall>t\<in>set out. 0 \<le> duration t" and
    fit: "\<forall>t\<in>set out. EF t \<le> INT_MAX" and st: "map static out = rows" by blast
  have pl: "projectLength out \<le> INT_MAX"
    using projectLengthFrom_bounds [of 0 out] fit
    by (auto simp: projectLength_def INT_MAX_def)
  have "EF t = ES t + duration t \<and> LF t = LS t + duration t \<and>
        0 \<le> ES t \<and> EF t \<le> INT_MAX \<and> 0 \<le> LS t \<and> LF t \<le> INT_MAX" if t: "t \<in> set out" for t
  proof -
    from fit t have f: "EF t \<le> INT_MAX" by blast
    from EF_le_LF [OF ok fit t] LF_le_projectLength [OF ok nn t] pl
      schedule_okD(1,2,4) [OF ok t] f
    show ?thesis by simp
  qed
  with run st show ?thesis by blast
qed

text \<open>Witness for C6: the diamond is a valid DAG input whose durations fit.\<close>

theorem C6_witness:
  "valid_dag diamond \<and> durations_fit diamond \<and>
   (\<exists>k out. main k zeroTask diamond = Some (Inr out) \<and> map static out = diamond \<and>
      (\<forall>t\<in>set out. EF t = ES t + duration t \<and> LF t = LS t + duration t \<and>
         0 \<le> ES t \<and> EF t \<le> INT_MAX \<and> 0 \<le> LS t \<and> LF t \<le> INT_MAX))"
  using C6_finish_is_start_plus_duration [OF diamond_valid diamond_fit, of zeroTask]
    diamond_valid diamond_fit by blast

subsection \<open>C7: slack is never negative\<close>

text \<open>
  Claim C7. For every valid DAG input (with the non-negative durations of the data model,
  their sum within the range of int) the run of main returns; its output has one task
  per row, and every task of it has ES \<le> LS, EF \<le> LF and slack \<ge> 0.
\<close>

theorem C7_slack_is_never_negative:
  assumes "valid_dag rows" "durations_fit rows"
  shows "\<exists>k out. main k g rows = Some (Inr out) \<and> map static out = rows \<and>
           (\<forall>t\<in>set out. ES t \<le> LS t \<and> EF t \<le> LF t \<and> 0 \<le> slack t)"
proof -
  from main_valid_run [OF assms] obtain k out where
    run: "main k g rows = Some (Inr out)" and ok: "schedule_ok out" and
    fit: "\<forall>t\<in>set out. EF t \<le> INT_MAX" and st: "map static out = rows" by blast
  have "ES t \<le> LS t \<and> EF t \<le> LF t \<and> 0 \<le> slack t" if t: "t \<in> set out" for t
    using EF_le_LF [OF ok fit t] schedule_okD(1,2,3) [OF ok t] by simp
  with run st show ?thesis by blast
qed

text \<open>Witness for C7: the diamond.\<close>

theorem C7_witness:
  "valid_dag diamond \<and> durations_fit diamond \<and>
   (\<exists>k out. main k zeroTask diamond = Some (Inr out) \<and> map static out = diamond \<and>
      (\<forall>t\<in>set out. ES t \<le> LS t \<and> EF t \<le> LF t \<and> 0 \<le> slack t))"
  using C7_slack_is_never_negative [OF diamond_valid diamond_fit, of zeroTask]
    diamond_valid diamond_fit by blast

subsection \<open>C8: unresolved dependency names\<close>

text \<open>
  Claim C8 says that an input with a dependency name that no row has fails with an
  UnresolvedDependency error at construction time. Counterexample: the lookup that fails
  is made inside the forward pass, and only when the recursion reaches it; on
  \<open>loop_then_missing\<close> the forward pass first visits \<open>a\<close>, which depends on itself,
  and never comes back to find that \<open>z\<close> is missing.
\<close>

theorem C8_counterexample: "\<not> resolved loop_then_missing \<and> diverges zeroTask loop_then_missing"
proof
  show "\<not> resolved loop_then_missing" by (simp add: resolved_def loop_then_missing_def)
  show "diverges zeroTask loop_then_missing"
    unfolding diverges_def
  proof
    fix k
    have "updateAllEarlyVars k (loadCSV zeroTask loop_then_missing) = None"
      using loop_then_missing_calls [of k]
      by (simp add: updateAllEarlyVars_def loop_then_missing_def loadCSV_def upt_rec bindR_simps)
    then show "main k zeroTask loop_then_missing = None" by (simp add: main_def bindR_simps)
  qed
qed

text \<open>
  Claim C8, amended. For every input with a dependency name that no row has: main never
  returns a schedule; every error it returns is \<open>TaskNotFound m\<close> for a name \<open>m\<close>
  that no row has (thrown by getTaskFromList inside the forward pass); and when the
  dependency relation is acyclic, main does return such an error.
\<close>

theorem C8_unresolved_gives_no_schedule:
  assumes "\<not> resolved rows"
  shows "(\<forall>k out. main k g rows \<noteq> Some (Inr out)) \<and>
         (\<forall>k e. main k g rows = Some (Inl e) \<longrightarrow>
            (\<exists>m. e = TaskNotFound m \<and> m \<notin> fst ` set rows)) \<and>
         (acyclic (depEdges rows) \<longrightarrow> (\<exists>k m. main k g rows = Some (Inl (TaskNotFound m))))"
proof -
  let ?ts0 = "loadCSV g rows"
  have ne: "\<forall>ts1. updateAllEarlyVars k ?ts0 \<noteq> Some (Inr ts1)" for k
    using updateAllEarlyVars_Inr_resolved [of k ?ts0] assms by (auto simp: resolvedT_loadCSV)
  note f = main_eq_forward_failure [OF ne]
  have 1: "\<forall>k out. main k g rows \<noteq> Some (Inr out)"
  proof (intro allI)
    fix k out from f [of k] show "main k g rows \<noteq> Some (Inr out)" by auto
  qed
  have 2: "\<exists>m. e = TaskNotFound m \<and> m \<notin> fst ` set rows" if "main k g rows = Some (Inl e)" for k e
  proof -
    from f [of k] that have "updateAllEarlyVars k ?ts0 = Some (Inl e)" by auto
    from updateAllEarlyVars_Inl [OF this] obtain t where
      "getEarlyStartScore k t ?ts0 = Some (Inl e)" by blast
    from getEarlyStartScore_Inl [OF this] obtain m where
      "e = TaskNotFound m" "m \<notin> name ` set ?ts0" by blast
    moreover have "name ` set ?ts0 = fst ` set rows"
      using names_loadCSV [of g rows] by (metis set_map)
    ultimately show ?thesis by simp
  qed
  have 3: "\<exists>k m. main k g rows = Some (Inl (TaskNotFound m))" if "acyclic (depEdges rows)"
  proof -
    from that have "acyclic (depRel ?ts0)" by (simp add: depRel_loadCSV)
    from updateAllEarlyVars_terminates [OF this] obtain k where
      "updateAllEarlyVars k ?ts0 \<noteq> None" by blast
    with f [of k] obtain e where e: "main k g rows = Some (Inl e)" by auto
    from 2 [OF e] e show ?thesis by blast
  qed
  from 1 2 3 show ?thesis by blast
qed

text \<open>Witness for C8, amended: \<open>missing_dep\<close>.\<close>

theorem C8_witness:
  "\<not> resolved missing_dep \<and> acyclic (depEdges missing_dep) \<and>
   (\<forall>k out. main k zeroTask missing_dep \<noteq> Some (Inr out)) \<and>
   main 1 zeroTask missing_dep = Some (Inl (TaskNotFound ''z'')) \<and>
   ''z'' \<notin> fst ` set missing_dep \<and>
   (\<exists>k m. main k zeroTask missing_dep = Some (Inl (TaskNotFound m)))"
proof -
  have u: "\<not> resolved missing_dep" by (simp add: resolved_def missing_dep_def)
  have a: "acyclic (depEdges missing_dep)"
    by (rule acyclic_rank [of _ "\<lambda>n. if n = ''a'' then 1 else 0"])
       (simp add: depEdges_def missing_dep_def)
  have m: "main 1 zeroTask missing_dep = Some (Inl (TaskNotFound ''z''))"
    by code_simp
  have z: "''z'' \<notin> fst ` set missing_dep" by (simp add: missing_dep_def)
  from C8_unresolved_gives_no_schedule [OF u, of zeroTask] u a m z show ?thesis by blast
qed

subsection \<open>C9: memoization\<close>

text \<open>
  Claim C9 says that the passes are memoized: a node reachable through several paths is
  evaluated once per pass. Counterexample: the program keeps no cache. On the diamond, the
  one call of getEarlyStartScore on \<open>d\<close> calls the function on \<open>a\<close> twice, once through
  \<open>b\<close> and once through \<open>c\<close>; the one call of getLateFinishScore on \<open>a\<close> calls it on
  \<open>d\<close> twice.
\<close>

theorem C9_counterexample:
  "getEarlyStartScore_log 3 (diamond_tasks ! 3) diamond_tasks =
     Some (Inr (5, [''d'', ''b'', ''a'', ''c'', ''a''])) \<and>
   getLateFinishScore_log 3 (diamond_tasks ! 0) diamond_tasks =
     Some (Inr (2, [''a'', ''b'', ''d'', ''c'', ''d'']))"
  by code_simp

text \<open>
  Claim C9, amended. Neither pass is memoized. A call of getEarlyStartScore that returns
  gives the value of the plain function, and, on a task that has dependencies, its log of
  calls is the task's name followed by the complete logs of one fresh call per dependency
  entry, in order; the same holds for getLateFinishScore over the successor entries. So a
  node is evaluated once for every path that reaches it, not once per pass, and the work
  is exponential on diamond-shaped DAGs: on the ladder of \<open>n\<close> diamonds, a valid DAG
  input of \<open>3 * n + 1\<close> tasks, the one call of getEarlyStartScore on the last task makes
  \<open>2 ^ (n + 2) - 3\<close> calls.
\<close>

theorem C9_every_path_is_evaluated:
  "(getEarlyStartScore_log (Suc k) t ts = Some (Inr (v, log)) \<longrightarrow>
      getEarlyStartScore (Suc k) t ts = Some (Inr v) \<and>
      (dependencies t \<noteq> [] \<longrightarrow>
        (\<exists>logs. list_all2 (\<lambda>d lg. \<exists>p s. getTaskFromList d ts = Inr p \<and>
                    getEarlyStartScore_log k p ts = Some (Inr (s, lg))) (dependencies t) logs \<and>
                log = name t # concat logs))) \<and>
   (getLateFinishScore_log (Suc k) t ts = Some (Inr (w, log')) \<longrightarrow>
      getLateFinishScore (Suc k) t ts = Some (Inr w) \<and>
      (successors t \<noteq> [] \<longrightarrow>
        (\<exists>logs. list_all2 (\<lambda>s lg. \<exists>q x. getTaskFromList s ts = Inr q \<and>
                    getLateFinishScore_log k q ts = Some (Inr (x, lg))) (successors t) logs \<and>
                log' = name t # concat logs))) \<and>
   valid_dag (ladder n) \<and> length (ladder n) = 3 * n + 1 \<and>
   (\<exists>x calls. getEarlyStartScore_log (2 * n + 1) (last (loadCSV g (ladder n)))
        (loadCSV g (ladder n)) = Some (Inr (x, calls)) \<and>
      length calls + 3 = 2 ^ (n + 2))"
proof (intro conjI impI)
  assume a: "getEarlyStartScore_log (Suc k) t ts = Some (Inr (v, log))"
  from getEarlyStartScore_log_value [of "Suc k" t ts] a
  show "getEarlyStartScore (Suc k) t ts = Some (Inr v)" by (simp add: value_of_simps)
  assume "dependencies t \<noteq> []"
  with a have "earlyStartLoop_log (\<lambda>p. getEarlyStartScore_log k p ts) (dependencies t) ts 0
                 [name t] = Some (Inr (v, log))" by simp
  from earlyStartLoop_log_calls [OF this]
  show "\<exists>logs. list_all2 (\<lambda>d lg. \<exists>p s. getTaskFromList d ts = Inr p \<and>
                    getEarlyStartScore_log k p ts = Some (Inr (s, lg))) (dependencies t) logs \<and>
                log = name t # concat logs" by simp
next
  assume a: "getLateFinishScore_log (Suc k) t ts = Some (Inr (w, log'))"
  from getLateFinishScore_log_value [of "Suc k" t ts] a
  show "getLateFinishScore (Suc k) t ts = Some (Inr w)" by (simp add: value_of_simps)
  assume "successors t \<noteq> []"
  with a have "lateFinishLoop_log (\<lambda>p. getLateFinishScore_log k p ts) (successors t) ts INT_MAX
                 [name t] = Some (Inr (w, log'))" by simp
  from lateFinishLoop_log_calls [OF this]
  show "\<exists>logs. list_all2 (\<lambda>s lg. \<exists>q x. getTaskFromList s ts = Inr q \<and>
                    getLateFinishScore_log k q ts = Some (Inr (x, lg))) (successors t) logs \<and>
                log' = name t # concat logs" by simp
next
  show "valid_dag (ladder n)" by (rule ladder_valid)
  show "length (ladder n) = 3 * n + 1" by (rule ladder_length)
  from ladder_calls [of n n g]
  show "\<exists>x calls. getEarlyStartScore_log (2 * n + 1) (last (loadCSV g (ladder n)))
        (loadCSV g (ladder n)) = Some (Inr (x, calls)) \<and>
      length calls + 3 = 2 ^ (n + 2)" by (simp add: ladder_last)
qed

text \<open>
  Witness for C9, amended: the call on \<open>d\<close> in the forward pass and the call on \<open>a\<close> in
  the backward pass of the diamond, at depth 3, and the ladder of two diamonds.
\<close>

theorem C9_witness:
  "getEarlyStartScore_log (Suc 2) (diamond_tasks ! 3) diamond_tasks =
     Some (Inr (5, [''d'', ''b'', ''a'', ''c'', ''a''])) \<and>
   getEarlyStartScore (Suc 2) (diamond_tasks ! 3) diamond_tasks = Some (Inr 5) \<and>
   dependencies (diamond_tasks ! 3) \<noteq> [] \<and>
   (\<exists>logs. list_all2 (\<lambda>d lg. \<exists>p s. getTaskFromList d diamond_tasks = Inr p \<and>
               getEarlyStartScore_log 2 p diamond_tasks = Some (Inr (s, lg)))
             (dependencies (diamond_tasks ! 3)) logs \<and>
           [''d'', ''b'', ''a'', ''c'', ''a''] = name (diamond_tasks ! 3) # concat logs) \<and>
   getLateFinishScore_log (Suc 2) (diamond_tasks ! 0) diamond_tasks =
     Some (Inr (2, [''a'', ''b'', ''d'', ''c'', ''d''])) \<and>
   getLateFinishScore (Suc 2) (diamond_tasks ! 0) diamond_tasks = Some (Inr 2) \<and>
   successors (diamond_tasks ! 0) \<noteq> [] \<and>
   (\<exists>logs. list_all2 (\<lambda>s lg. \<exists>q x. getTaskFromList s diamond_tasks = Inr q \<and>
               getLateFinishScore_log 2 q diamond_tasks = Some (Inr (x, lg)))
             (successors (diamond_tasks ! 0)) logs \<and>
           [''a'', ''b'', ''d'', ''c'', ''d''] = name (diamond_tasks ! 0) # concat logs) \<and>
   valid_dag (ladder 2) \<and> length (ladder 2) = 3 * 2 + 1 \<and>
   (\<exists>x calls. getEarlyStartScore_log (2 * 2 + 1) (last (loadCSV zeroTask (ladder 2)))
        (loadCSV zeroTask (ladder 2)) = Some (Inr (x, calls)) \<and>
      length calls + 3 = 2 ^ (2 + 2))"
proof -
  have e: "getEarlyStartScore_log (Suc 2) (diamond_tasks ! 3) diamond_tasks =
     Some (Inr (5, [''d'', ''b'', ''a'', ''c'', ''a'']))" by code_simp
  have l: "getLateFinishScore_log (Suc 2) (diamond_tasks ! 0) diamond_tasks =
     Some (Inr (2, [''a'', ''b'', ''d'', ''c'', ''d'']))" by code_simp
  have d: "dependencies (diamond_tasks ! 3) \<noteq> []" "successors (diamond_tasks ! 0) \<noteq> []"
    by (simp_all add: diamond_tasks_def)
  from C9_every_path_is_evaluated [of 2 "diamond_tasks ! 3" diamond_tasks 5
      "[''d'', ''b'', ''a'', ''c'', ''a'']" 2 "[''a'', ''b'', ''d'', ''c'', ''d'']" 2 zeroTask]
    C9_every_path_is_evaluated [of 2 "diamond_tasks ! 0" diamond_tasks 5
      "[''d'', ''b'', ''a'', ''c'', ''a'']" 2 "[''a'', ''b'', ''d'', ''c'', ''d'']" 2 zeroTask]
    e l d
  show ?thesis by blast
qed

subsection \<open>C10: termination of the recursions\<close>

text \<open>
  Claim C10. For every input whose dependency names all resolve and whose dependency
  relation is acyclic, a recursion depth exists within which getEarlyStartScore returns a
  value on every task of the loaded vector, the forward pass and populateSuccessors
  succeed, and getLateFinishScore returns a value on every task of the vector with its
  successors filled in.
\<close>

theorem C10_recursions_terminate:
  assumes "resolved rows" "acyclic (depEdges rows)"
  shows "\<exists>k ts1 ts2.
           (\<forall>t\<in>set (loadCSV g rows). \<exists>v. getEarlyStartScore k t (loadCSV g rows) = Some (Inr v)) \<and>
           updateAllEarlyVars k (loadCSV g rows) = Some (Inr ts1) \<and>
           populateSuccessors ts1 = Inr ts2 \<and>
           (\<forall>t\<in>set ts2. \<exists>w. getLateFinishScore k t ts2 = Some (Inr w))"
proof -
  let ?ts0 = "loadCSV g rows"
  from main_terminates [OF assms] obtain k out where run: "main k g rows = Some (Inr out)"
    by blast
  from main_nth [OF run] obtain ts1 ts2 where
    e: "updateAllEarlyVars k ?ts0 = Some (Inr ts1)" and p: "populateSuccessors ts1 = Inr ts2" and
    len: "length ts2 = length rows" and
    nth: "\<forall>i<length rows.
       \<exists>v w. getEarlyStartScore k (?ts0 ! i) ?ts0 = Some (Inr v) \<and>
             getLateFinishScore k (ts2 ! i) ts2 = Some (Inr w) \<and>
             ts1 ! i = (?ts0 ! i)\<lparr>ES := v, EF := v + duration (?ts0 ! i)\<rparr> \<and>
             unsucc (ts2 ! i) = unsucc (ts1 ! i) \<and>
             out ! i = (ts2 ! i)\<lparr>LF := w, LS := w - duration (ts2 ! i),
                          slack := w - duration (ts2 ! i) - ES (ts2 ! i)\<rparr>"
    by blast
  have l0: "length ?ts0 = length rows" by (simp add: loadCSV_def)
  have "\<exists>v. getEarlyStartScore k t ?ts0 = Some (Inr v)" if "t \<in> set ?ts0" for t
  proof -
    from that l0 obtain i where "i < length rows" "t = ?ts0 ! i" by (auto simp: in_set_conv_nth)
    with nth show ?thesis by blast
  qed
  moreover have "\<exists>w. getLateFinishScore k t ts2 = Some (Inr w)" if "t \<in> set ts2" for t
  proof -
    from that len obtain i where "i < length rows" "t = ts2 ! i" by (auto simp: in_set_conv_nth)
    with nth show ?thesis by blast
  qed
  ultimately show ?thesis using e p by blast
qed

text \<open>Witness for C10: the diamond.\<close>

theorem C10_witness:
  "resolved diamond \<and> acyclic (depEdges diamond) \<and>
   (\<exists>k ts1 ts2.
      (\<forall>t\<in>set (loadCSV zeroTask diamond).
          \<exists>v. getEarlyStartScore k t (loadCSV zeroTask diamond) = Some (Inr v)) \<and>
      updateAllEarlyVars k (loadCSV zeroTask diamond) = Some (Inr ts1) \<and>
      populateSuccessors ts1 = Inr ts2 \<and>
      (\<forall>t\<in>set ts2. \<exists>w. getLateFinishScore k t ts2 = Some (Inr w)))"
proof -
  from diamond_valid have h: "resolved diamond" "acyclic (depEdges diamond)"
    by (simp_all add: valid_dag_def)
  from C10_recursions_terminate [OF h, of zeroTask] h show ?thesis by blast
qed

end
